theory Spec2Isabelle
  imports Main "HOL-Library.Sublist"
begin

section \<open>Results of fallible and of possibly non-terminating code\<close>

text \<open>
  The source is C++ with \<^verbatim>\<open>assert\<close>. An assertion that fails aborts the program; the
  model returns \<open>Inl AssertionFailure\<close> there. An access the source makes without a check
  (an index into \<^verbatim>\<open>Rules\<close>, \<^verbatim>\<open>back()\<close> of an empty term) is \<open>Inl OutOfRange\<close>.
  A loop that goes on with iterators into a vector after an \<^verbatim>\<open>emplace_back\<close> on that
  vector has no defined behaviour; the model returns \<open>Inl InvalidatedIterator\<close> there.
  A loop with no bound (\<^verbatim>\<open>while (true)\<close> in \<^verbatim>\<open>simplify\<close>, the worklist loop) is a
  partial function into \<open>option\<close>: \<open>None\<close> is "does not return".
\<close>

datatype error = AssertionFailure | OutOfRange | InvalidatedIterator

definition bindM :: "(error + 'a) option \<Rightarrow> ('a \<Rightarrow> (error + 'b) option) \<Rightarrow> (error + 'b) option" where
  "bindM m f = (case m of None \<Rightarrow> None | Some (Inl e) \<Rightarrow> Some (Inl e) | Some (Inr x) \<Rightarrow> f x)"

lemma bindM_as_bind:
  "bindM m f = Option.bind m (\<lambda>r. case r of Inl e \<Rightarrow> Some (Inl e) | Inr x \<Rightarrow> f x)"
  by (simp add: bindM_def split: option.splits sum.splits)

lemma bindM_mono [partial_function_mono]:
  assumes mf: "mono_option B" and mg: "\<And>y. mono_option (\<lambda>f. C y f)"
  shows "mono_option (\<lambda>f. bindM (B f) (\<lambda>y. C y f))"
  unfolding bindM_as_bind
proof (rule bind_mono [OF mf])
  fix y
  show "mono_option (\<lambda>f. case y of Inl e \<Rightarrow> Some (Inl e) | Inr x \<Rightarrow> C x f)"
    by (cases y) (simp_all add: mg option.const_mono)
qed

section \<open>Atoms\<close>

text \<open>
  \<^verbatim>\<open>swift/AST/RewriteSystem.h\<close> (the declarations of \<^verbatim>\<open>Atom\<close>, \<^verbatim>\<open>Term\<close>, \<^verbatim>\<open>Rule\<close>,
  \<^verbatim>\<open>ProtocolGraph\<close>) is not among the sources. The data model below is the one the
  source file uses through its accessors, with the payloads of section 3 of the
  specification. A \<^verbatim>\<open>const ProtocolDecl *\<close> is a handle; the source compares handles
  with \<^verbatim>\<open>==\<close> only.
\<close>

type_synonym Identifier = string
type_synonym ProtocolDecl = nat
type_synonym LayoutConstraint = nat

text \<open>The protocol graph is consumed read-only; its two queries are parameters.\<close>

record ProtocolGraph =
  compareProtocols :: "ProtocolDecl \<Rightarrow> ProtocolDecl \<Rightarrow> int"
  inheritsFrom :: "ProtocolDecl \<Rightarrow> ProtocolDecl \<Rightarrow> bool"

datatype Kind = Kind_Name | Kind_Protocol | Kind_AssociatedType | Kind_GenericParam | Kind_Layout

text \<open>
  The constructors carry the names of the source's factory functions
  (\<^verbatim>\<open>Atom::forProtocol\<close>, \<^verbatim>\<open>Atom::forAssociatedType\<close>). A generic parameter is its
  (depth, index) pair.
\<close>

datatype Atom =
    forName Identifier
  | forProtocol ProtocolDecl
  | forAssociatedType "ProtocolDecl list" Identifier
  | forGenericParam nat nat
  | forLayout LayoutConstraint

fun getKind :: "Atom \<Rightarrow> Kind" where
  "getKind (forName n) = Kind_Name"
| "getKind (forProtocol p) = Kind_Protocol"
| "getKind (forAssociatedType ps n) = Kind_AssociatedType"
| "getKind (forGenericParam d i) = Kind_GenericParam"
| "getKind (forLayout l) = Kind_Layout"

text \<open>
  Modelled from the spec: the numbering of \<^verbatim>\<open>enum class Atom::Kind\<close> (declared in the
  missing header), which \<^verbatim>\<open>int(kind) < int(otherKind)\<close> reads. Section 3:
  Name < Protocol < AssociatedType < GenericParam < Layout.
\<close>

fun kind_index :: "Kind \<Rightarrow> int" where
  "kind_index Kind_Name = 0"
| "kind_index Kind_Protocol = 1"
| "kind_index Kind_AssociatedType = 2"
| "kind_index Kind_GenericParam = 3"
| "kind_index Kind_Layout = 4"

text \<open>
  Modelled from the spec: \<^verbatim>\<open>Identifier::compare\<close> (not in this repository's sources),
  "lexicographic on identifier": a three-way comparison of the two byte strings.
\<close>

fun Identifier_compare :: "Identifier \<Rightarrow> Identifier \<Rightarrow> int" where
  "Identifier_compare [] [] = 0"
| "Identifier_compare [] (d # ds) = - 1"
| "Identifier_compare (c # cs) [] = 1"
| "Identifier_compare (c # cs) (d # ds) =
     (if (of_char c :: nat) < of_char d then - 1
      else if (of_char d :: nat) < of_char c then 1
      else Identifier_compare cs ds)"

text \<open>
  Modelled from the spec: \<^verbatim>\<open>LayoutConstraint::compare\<close> (not in this repository's
  sources), "an opaque value with its own total order".
\<close>

definition LayoutConstraint_compare :: "LayoutConstraint \<Rightarrow> LayoutConstraint \<Rightarrow> int" where
  "LayoutConstraint_compare a b = (if a < b then - 1 else if b < a then 1 else 0)"

text \<open>The \<^verbatim>\<open>for\<close> loop of the AssociatedType case; both lists have the same size there.\<close>

fun compareProtocolLists :: "ProtocolGraph \<Rightarrow> ProtocolDecl list \<Rightarrow> ProtocolDecl list \<Rightarrow> int" where
  "compareProtocolLists graph (p # ps) (q # qs) =
     (let result = compareProtocols graph p q
      in if result \<noteq> 0 then result else compareProtocolLists graph ps qs)"
| "compareProtocolLists graph ps qs = 0"

text \<open>
  \<^verbatim>\<open>Atom::compare\<close>. The equations for two atoms of one kind come first; the last
  equation is the source's first test, \<^verbatim>\<open>kind != otherKind\<close>.
\<close>

fun Atom_compare :: "ProtocolGraph \<Rightarrow> Atom \<Rightarrow> Atom \<Rightarrow> int" where
  "Atom_compare graph (forName n) (forName m) = Identifier_compare n m"
| "Atom_compare graph (forProtocol p) (forProtocol q) = compareProtocols graph p q"
| "Atom_compare graph (forAssociatedType protos n) (forAssociatedType otherProtos m) =
     (if length protos \<noteq> length otherProtos
      then (if length protos > length otherProtos then - 1 else 1)
      else (let result = compareProtocolLists graph protos otherProtos
            in if result \<noteq> 0 then result else Identifier_compare n m))"
| "Atom_compare graph (forGenericParam d i) (forGenericParam d' i') =
     (if d \<noteq> d' then (if d < d' then - 1 else 1)
      else if i \<noteq> i' then (if i < i' then - 1 else 1)
      else 0)"
| "Atom_compare graph (forLayout l) (forLayout l') = LayoutConstraint_compare l l'"
| "Atom_compare graph a other =
     (if kind_index (getKind a) < kind_index (getKind other) then - 1 else 1)"

section \<open>Terms\<close>

type_synonym Term = "Atom list"

text \<open>The loop of \<^verbatim>\<open>Term::compare\<close>, with its two assertions.\<close>

fun Term_compare_atoms :: "ProtocolGraph \<Rightarrow> Term \<Rightarrow> Term \<Rightarrow> error + int" where
  "Term_compare_atoms graph (lhs # ls) (rhs # rs) =
     (let result = Atom_compare graph lhs rhs
      in if result \<noteq> 0
         then (if lhs \<noteq> rhs then Inr result else Inl AssertionFailure)
         else (if lhs = rhs then Term_compare_atoms graph ls rs else Inl AssertionFailure))"
| "Term_compare_atoms graph ls rs = Inr 0"

definition Term_compare :: "ProtocolGraph \<Rightarrow> Term \<Rightarrow> Term \<Rightarrow> error + int" where
  "Term_compare graph t other =
     (if length t \<noteq> length other
      then Inr (if length t < length other then - 1 else 1)
      else Term_compare_atoms graph t other)"

text \<open>
  \<^verbatim>\<open>std::search\<close>: the offset of the first occurrence of \<open>ys\<close> in \<open>xs\<close>, and
  \<open>length xs\<close> (the end iterator) when there is none. An empty \<open>ys\<close> is found at 0.
\<close>

fun std_search :: "'a list \<Rightarrow> 'a list \<Rightarrow> nat" where
  "std_search [] ys = 0"
| "std_search (x # xs) ys =
     (if take (length ys) (x # xs) = ys then 0 else Suc (std_search xs ys))"

definition findSubTerm :: "Term \<Rightarrow> Term \<Rightarrow> nat" where
  "findSubTerm t other =
     (if length other > length t then length t else std_search t other)"

text \<open>
  \<^verbatim>\<open>Term::rewriteSubTerm\<close>: the boolean result and the term after the call. The two
  \<^verbatim>\<open>std::copy\<close> calls and the \<^verbatim>\<open>erase\<close> leave the atoms before the match, then
  \<open>rhs\<close>, then the atoms after the match. The closing assertion on the size follows
  from the first one and is not a branch of its own.
\<close>

definition rewriteSubTerm :: "Term \<Rightarrow> Term \<Rightarrow> Term \<Rightarrow> error + (bool \<times> Term)" where
  "rewriteSubTerm t lhs rhs =
     (let found = findSubTerm t lhs
      in if found = length t then Inr (False, t)
         else if \<not> length rhs \<le> length lhs then Inl AssertionFailure
         else Inr (True, take found t @ rhs @ drop (found + length lhs) t))"

text \<open>
  \<^verbatim>\<open>Term::checkForOverlap\<close>. \<open>first1\<close> is the offset of the iterator of that name.
  The first loop returns \<open>None\<close> when it has found \<open>other\<close> inside the term, and the
  offset it stopped at otherwise.
\<close>

function overlap_contained :: "Term \<Rightarrow> Term \<Rightarrow> nat \<Rightarrow> nat option" where
  "overlap_contained self other first1 =
     (if first1 + length other \<le> length self
      then (if take (length other) (drop first1 self) = other then None
            else overlap_contained self other (Suc first1))
      else Some first1)"
  by pat_completeness auto
termination
  by (relation "measure (\<lambda>(self, other, first1). Suc (length self) - first1)") auto

declare overlap_contained.simps [simp del]

text \<open>
  The second loop. \<^verbatim>\<open>std::equal(first1, last1, first2)\<close> compares the rest of the
  term with as many atoms at the front of \<open>other\<close>; \<^verbatim>\<open>last2\<close> is decremented and
  never read. The loop is entered with \<open>first1 \<le> length self\<close>, where
  \<^verbatim>\<open>first1 != last1\<close> is \<open>first1 < length self\<close>.
\<close>

function overlap_suffix :: "Term \<Rightarrow> Term \<Rightarrow> nat \<Rightarrow> Term option" where
  "overlap_suffix self other first1 =
     (if first1 < length self
      then (if drop first1 self = take (length self - first1) other
            then Some (take first1 self @ other)
            else overlap_suffix self other (Suc first1))
      else None)"
  by pat_completeness auto
termination
  by (relation "measure (\<lambda>(self, other, first1). length self - first1)") auto

declare overlap_suffix.simps [simp del]

text \<open>\<open>None\<close> is the result \<^verbatim>\<open>false\<close>; \<open>Some result\<close> is \<^verbatim>\<open>true\<close> with the out-parameter.\<close>

definition checkForOverlap :: "Term \<Rightarrow> Term \<Rightarrow> Term option" where
  "checkForOverlap self other =
     (if length other > length self then None
      else (case overlap_contained self other 0 of
              None \<Rightarrow> Some self
            | Some first1 \<Rightarrow> overlap_suffix self other first1))"

section \<open>Rules\<close>

text \<open>The fields \<^verbatim>\<open>Rule::dump\<close> reads.\<close>

record Rule =
  LHS :: Term
  RHS :: Term
  deleted :: bool

text \<open>
  Modelled from the spec: the constructor \<^verbatim>\<open>Rule(lhs, rhs)\<close> of the missing header,
  which \<^verbatim>\<open>Rules.emplace_back(lhs, rhs)\<close> and the finalisation of the completion call.
  Section 4.5, step 4: "append a new rule with deleted=false".
\<close>

definition mkRule :: "Term \<Rightarrow> Term \<Rightarrow> Rule" where
  "mkRule lhs rhs = \<lparr>LHS = lhs, RHS = rhs, deleted = False\<rparr>"

text \<open>Modelled from the spec: \<^verbatim>\<open>Rule::isDeleted\<close>, which reads the tombstone.\<close>

definition isDeleted :: "Rule \<Rightarrow> bool" where
  "isDeleted rule = deleted rule"

text \<open>Modelled from the spec: \<^verbatim>\<open>Rule::markDeleted\<close>, "sets the tombstone".\<close>

definition markDeleted :: "Rule \<Rightarrow> Rule" where
  "markDeleted rule = rule\<lparr>deleted := True\<rparr>"

text \<open>
  Modelled from the spec: \<^verbatim>\<open>Rule::apply\<close>, "equivalent to
  term.rewrite_subterm(LHS, RHS)".
\<close>

definition Rule_apply :: "Rule \<Rightarrow> Term \<Rightarrow> error + (bool \<times> Term)" where
  "Rule_apply rule t = rewriteSubTerm t (LHS rule) (RHS rule)"

text \<open>
  Modelled from the spec: \<^verbatim>\<open>Rule::canReduceLeftHandSide\<close>, "true iff other.LHS
  occurs as a subterm of self.LHS and other \<noteq> self".
\<close>

definition canReduceLeftHandSide :: "Rule \<Rightarrow> Rule \<Rightarrow> bool" where
  "canReduceLeftHandSide self other =
     (findSubTerm (LHS self) (LHS other) \<noteq> length (LHS self) \<and> other \<noteq> self)"

section \<open>The rewrite system\<close>

text \<open>
  The member \<^verbatim>\<open>Protos\<close> is written by \<^verbatim>\<open>initialize\<close> only and read everywhere else;
  it is the argument \<open>graph\<close> of the functions below.
\<close>

record RewriteSystem =
  Rules :: "Rule list"
  MergedAssociatedTypes :: "(Term \<times> Term) list"
  Worklist :: "(nat \<times> nat) list"

subsection \<open>simplify\<close>

text \<open>One run of the \<^verbatim>\<open>for\<close> loop over the rules: the term and \<^verbatim>\<open>tryAgain\<close> after it.\<close>

fun simplify_pass :: "Rule list \<Rightarrow> Term \<Rightarrow> bool \<Rightarrow> error + (Term \<times> bool)" where
  "simplify_pass [] t tryAgain = Inr (t, tryAgain)"
| "simplify_pass (rule # rules) t tryAgain =
     (if isDeleted rule then simplify_pass rules t tryAgain
      else (case Rule_apply rule t of
              Inl e \<Rightarrow> Inl e
            | Inr (applied, t') \<Rightarrow> simplify_pass rules t' (if applied then True else tryAgain)))"

text \<open>The \<^verbatim>\<open>while (true)\<close> loop; it returns \<^verbatim>\<open>changed\<close> and the term.\<close>

partial_function (option) simplify_loop ::
  "Rule list \<Rightarrow> Term \<Rightarrow> bool \<Rightarrow> (error + (bool \<times> Term)) option" where
  "simplify_loop rules t changed =
     (case simplify_pass rules t False of
        Inl e \<Rightarrow> Some (Inl e)
      | Inr (t', tryAgain) \<Rightarrow>
          if tryAgain then simplify_loop rules t' True else Some (Inr (changed, t')))"

declare simplify_loop.simps [code]

definition simplify :: "RewriteSystem \<Rightarrow> Term \<Rightarrow> (error + (bool \<times> Term)) option" where
  "simplify s t = simplify_loop (Rules s) t False"

subsection \<open>addRule\<close>

text \<open>
  The test that registers a merge candidate. It is reached with two terms that differ,
  so two terms of equal size are not empty there.
\<close>

definition isMergeCandidate :: "Term \<Rightarrow> Term \<Rightarrow> bool" where
  "isMergeCandidate lhs rhs =
     (length lhs = length rhs \<and> lhs \<noteq> [] \<and> butlast lhs = butlast rhs \<and>
      (case (last lhs, last rhs) of
         (forAssociatedType ps n, forAssociatedType qs m) \<Rightarrow> n = m
       | _ \<Rightarrow> False))"

definition newWorklistPairs :: "nat \<Rightarrow> nat \<Rightarrow> (nat \<times> nat) list" where
  "newWorklistPairs i n = concat (map (\<lambda>j. [(i, j), (j, i)]) (filter (\<lambda>j. i \<noteq> j) [0..<n]))"

definition addRule ::
  "ProtocolGraph \<Rightarrow> Term \<Rightarrow> Term \<Rightarrow> RewriteSystem \<Rightarrow> (error + (bool \<times> RewriteSystem)) option" where
  "addRule graph lhs rhs s =
     bindM (simplify s lhs) (\<lambda>(c1, lhs1).
     bindM (simplify s rhs) (\<lambda>(c2, rhs1).
     bindM (Some (Term_compare graph lhs1 rhs1)) (\<lambda>result.
       if result = 0 then Some (Inr (False, s))
       else
         (let lhs2 = (if result < 0 then rhs1 else lhs1);
              rhs2 = (if result < 0 then lhs1 else rhs1)
          in bindM (Some (Term_compare graph lhs2 rhs2)) (\<lambda>oriented.
               if \<not> oriented > 0 then Some (Inl AssertionFailure)
               else
                 (let i = length (Rules s);
                      s1 = s\<lparr>Rules := Rules s @ [mkRule lhs2 rhs2]\<rparr>;
                      s2 = (if isMergeCandidate lhs2 rhs2
                            then s1\<lparr>MergedAssociatedTypes :=
                                       MergedAssociatedTypes s1 @ [(lhs2, rhs2)]\<rparr>
                            else s1);
                      s3 = s2\<lparr>Worklist := Worklist s2 @ newWorklistPairs i (length (Rules s2))\<rparr>
                  in Some (Inr (True, s3))))))))"

subsection \<open>Merging associated types\<close>

text \<open>\<^verbatim>\<open>std::merge\<close> with a comparison: of two equivalent elements the first range's goes first.\<close>

fun std_merge :: "('a \<Rightarrow> 'a \<Rightarrow> bool) \<Rightarrow> 'a list \<Rightarrow> 'a list \<Rightarrow> 'a list" where
  "std_merge precedes [] ys = ys"
| "std_merge precedes (x # xs) [] = x # xs"
| "std_merge precedes (x # xs) (y # ys) =
     (if precedes y x then y # std_merge precedes (x # xs) ys
      else x # std_merge precedes xs (y # ys))"

text \<open>
  \<^verbatim>\<open>RewriteSystem::mergeAssociatedTypes\<close>, with its assertions in the source's order.
  The filter keeps \<open>newProto\<close> when \<^verbatim>\<open>std::find_if\<close> over \<open>protos\<close>, the protocols of
  \<open>lhs\<close>, finds nothing.
\<close>

definition mergeAssociatedTypes :: "ProtocolGraph \<Rightarrow> Atom \<Rightarrow> Atom \<Rightarrow> error + Atom" where
  "mergeAssociatedTypes graph lhs rhs =
     (case (lhs, rhs) of
        (forAssociatedType protos name, forAssociatedType otherProtos otherName) \<Rightarrow>
          if name \<noteq> otherName then Inl AssertionFailure
          else if \<not> Atom_compare graph lhs rhs > 0 then Inl AssertionFailure
          else if \<not> length protos \<le> length otherProtos then Inl AssertionFailure
          else
            (let newProtos =
                   std_merge (\<lambda>l r. compareProtocols graph l r < 0) protos otherProtos;
                 minimalProtos =
                   filter (\<lambda>newProto.
                       find (\<lambda>thisProto. thisProto = newProto \<or>
                                          inheritsFrom graph thisProto newProto) protos = None)
                     newProtos
             in if \<not> length minimalProtos \<ge> length protos then Inl AssertionFailure
                else if \<not> length minimalProtos \<ge> length otherProtos then Inl AssertionFailure
                else Inr (forAssociatedType minimalProtos name))
      | _ \<Rightarrow> Inl AssertionFailure)"

text \<open>
  The body of the conformance-lifting loop of \<^verbatim>\<open>processMergedAssociatedTypes\<close> for one
  rule \<open>otherRule\<close>, up to the call of \<^verbatim>\<open>addRule\<close>: \<open>Inr None\<close> when the rule is passed
  over, and the two arguments \<open>(newLHS, otherRHS)\<close> of \<^verbatim>\<open>addRule\<close> otherwise. The two
  assertions are those of lines 409 and 410.
\<close>

definition liftConformanceRule :: "Rule \<Rightarrow> Term \<Rightarrow> Term \<Rightarrow> Atom \<Rightarrow> error + (Term \<times> Term) option" where
  "liftConformanceRule otherRule lhs rhs mergedAtom =
     (let otherLHS = LHS otherRule
      in (case otherLHS of
            [x, forProtocol proto] \<Rightarrow>
              if x = last lhs \<or> x = last rhs
              then
                (let otherRHS = RHS otherRule
                 in if length otherRHS \<noteq> 1 then Inl AssertionFailure
                    else if otherRHS ! 0 \<noteq> otherLHS ! 0 then Inl AssertionFailure
                    else
                      (let otherRHS' = otherRHS[length otherRHS - 1 := mergedAtom];
                           newLHS = otherRHS' @ [forProtocol proto]
                       in Inr (Some (newLHS, otherRHS'))))
              else Inr None
          | _ \<Rightarrow> Inr None))"

text \<open>
  The loop itself, \<^verbatim>\<open>for (const auto &otherRule : Rules)\<close> of line 396. The range-based
  \<^verbatim>\<open>for\<close> takes \<^verbatim>\<open>Rules.begin()\<close> and \<^verbatim>\<open>Rules.end()\<close> once, when it starts, and
  \<^verbatim>\<open>addRule\<close> in its body (line 417) appends to the same vector with
  \<^verbatim>\<open>Rules.emplace_back\<close> (line 261) when it returns true. That invalidates the end
  iterator the loop compares with, and every iterator when the vector reallocates, so
  the next step of the loop has no defined behaviour: the model stops there with
  \<open>Inl InvalidatedIterator\<close>. As long as every \<^verbatim>\<open>addRule\<close> of the body returns false the
  vector is the one the loop started with (the second argument) and the loop goes on.
  Modelled from the spec: \<^verbatim>\<open>Rules\<close> is declared in the missing header; section 3 has
  "rules: Vec<Rule>".
\<close>

fun liftConformanceRules ::
  "ProtocolGraph \<Rightarrow> Rule list \<Rightarrow> Term \<Rightarrow> Term \<Rightarrow> Atom \<Rightarrow> RewriteSystem \<Rightarrow> (error + RewriteSystem) option" where
  "liftConformanceRules graph [] lhs rhs mergedAtom s = Some (Inr s)"
| "liftConformanceRules graph (otherRule # rest) lhs rhs mergedAtom s =
     (case liftConformanceRule otherRule lhs rhs mergedAtom of
        Inl e \<Rightarrow> Some (Inl e)
      | Inr None \<Rightarrow> liftConformanceRules graph rest lhs rhs mergedAtom s
      | Inr (Some (newLHS, otherRHS)) \<Rightarrow>
          bindM (addRule graph newLHS otherRHS s) (\<lambda>(added, s').
            if added then Some (Inl InvalidatedIterator)
            else liftConformanceRules graph rest lhs rhs mergedAtom s'))"

text \<open>
  The \<^verbatim>\<open>while (i < MergedAssociatedTypes.size())\<close> loop. \<^verbatim>\<open>back()\<close> of an empty
  term has no defined result in the source.
\<close>

partial_function (option) processMerged_loop ::
  "ProtocolGraph \<Rightarrow> nat \<Rightarrow> RewriteSystem \<Rightarrow> (error + RewriteSystem) option" where
  "processMerged_loop graph i s =
     (if i < length (MergedAssociatedTypes s)
      then
        (let lhs = fst (MergedAssociatedTypes s ! i);
             rhs = snd (MergedAssociatedTypes s ! i)
         in if lhs = [] \<or> rhs = [] then Some (Inl OutOfRange)
            else
              bindM (Some (mergeAssociatedTypes graph (last lhs) (last rhs))) (\<lambda>mergedAtom.
                (let mergedTerm = lhs[length lhs - 1 := mergedAtom]
                 in bindM (addRule graph lhs mergedTerm s) (\<lambda>(added1, s1).
                    bindM (addRule graph rhs mergedTerm s1) (\<lambda>(added2, s2).
                    bindM (liftConformanceRules graph (Rules s2) lhs rhs mergedAtom s2) (\<lambda>s3.
                      processMerged_loop graph (Suc i) s3))))))
      else Some (Inr s))"

declare processMerged_loop.simps [code]

definition processMergedAssociatedTypes :: "ProtocolGraph \<Rightarrow> RewriteSystem \<Rightarrow> (error + RewriteSystem) option" where
  "processMergedAssociatedTypes graph s =
     (if MergedAssociatedTypes s = [] then Some (Inr s)
      else bindM (processMerged_loop graph 0 s) (\<lambda>s'.
             Some (Inr (s'\<lparr>MergedAssociatedTypes := []\<rparr>))))"

subsection \<open>The completion procedure\<close>

datatype CompletionResult = Success | MaxIterations | MaxDepth

text \<open>
  The loop of step 8 that retires rules: for every index \<open>j\<close> other than \<open>i\<close>, a live
  rule whose left-hand side the new rule reduces is marked deleted.
\<close>

fun retireRules :: "nat list \<Rightarrow> nat \<Rightarrow> Rule list \<Rightarrow> Rule list" where
  "retireRules [] i rules = rules"
| "retireRules (j # js) i rules =
     (if i = j then retireRules js i rules
      else if isDeleted (rules ! j) then retireRules js i rules
      else if canReduceLeftHandSide (rules ! j) (rules ! i)
           then retireRules js i (rules[j := markDeleted (rules ! j)])
           else retireRules js i rules)"

text \<open>The first finalisation loop: every rule is replaced by a rule built from its
  left-hand side and its simplified right-hand side.\<close>

fun simplifyRightHandSides :: "nat list \<Rightarrow> RewriteSystem \<Rightarrow> (error + RewriteSystem) option" where
  "simplifyRightHandSides [] s = Some (Inr s)"
| "simplifyRightHandSides (k # ks) s =
     (let rule = Rules s ! k;
          rhs = RHS rule
      in bindM (simplify s rhs) (\<lambda>(changed, rhs').
           simplifyRightHandSides ks (s\<lparr>Rules := (Rules s)[k := mkRule (LHS rule) rhs']\<rparr>)))"

text \<open>
  \<^verbatim>\<open>std::sort\<close> by the left-hand side. The standard fixes the result up to the order
  of equivalent elements; the model is an insertion sort, which keeps their order.
\<close>

fun insertRule :: "ProtocolGraph \<Rightarrow> Rule \<Rightarrow> Rule list \<Rightarrow> error + Rule list" where
  "insertRule graph r [] = Inr [r]"
| "insertRule graph r (x # xs) =
     (case Term_compare graph (LHS x) (LHS r) of
        Inl e \<Rightarrow> Inl e
      | Inr c \<Rightarrow>
          if c < 0
          then (case insertRule graph r xs of Inl e \<Rightarrow> Inl e | Inr ys \<Rightarrow> Inr (x # ys))
          else Inr (r # x # xs))"

fun sortRules :: "ProtocolGraph \<Rightarrow> Rule list \<Rightarrow> error + Rule list" where
  "sortRules graph [] = Inr []"
| "sortRules graph (r # rs) =
     (case sortRules graph rs of Inl e \<Rightarrow> Inl e | Inr ys \<Rightarrow> insertRule graph r ys)"

definition finalise :: "ProtocolGraph \<Rightarrow> RewriteSystem \<Rightarrow> (error + (CompletionResult \<times> RewriteSystem)) option" where
  "finalise graph s =
     bindM (simplifyRightHandSides [0..<length (Rules s)] s) (\<lambda>s1.
     bindM (Some (sortRules graph (Rules s1))) (\<lambda>sorted.
       Some (Inr (Success, s1\<lparr>Rules := sorted\<rparr>))))"

text \<open>
  One run of the body of the worklist loop: \<open>pair\<close> is the pair taken from the front of
  the worklist and \<open>s0\<close> the system after \<^verbatim>\<open>pop_front\<close>. The run ends the procedure
  (\<open>Return\<close>) or goes on with a budget and a system (\<open>Continue\<close>).
  \<^verbatim>\<open>Rule::getDepth\<close> is declared in the missing header and is the parameter
  \<open>getDepth\<close>. Modelled from the spec: \<^verbatim>\<open>Rule::checkForOverlap\<close>, section 4.7 step 3,
  "rules[i].LHS.check_for_overlap(rules[j].LHS)".
\<close>

datatype Iteration = Continue nat RewriteSystem | Return CompletionResult RewriteSystem

definition completionIteration ::
  "ProtocolGraph \<Rightarrow> (Rule \<Rightarrow> nat) \<Rightarrow> nat \<Rightarrow> nat \<Rightarrow> nat \<times> nat \<Rightarrow> RewriteSystem \<Rightarrow>
   (error + Iteration) option" where
  "completionIteration graph getDepth maxIterations maxDepth pair s0 =
     (if \<not> (fst pair < length (Rules s0) \<and> snd pair < length (Rules s0))
      then Some (Inl OutOfRange)
      else
        (let lhs = Rules s0 ! fst pair;
             rhs = Rules s0 ! snd pair
         in if isDeleted lhs \<or> isDeleted rhs then Some (Inr (Continue maxIterations s0))
            else
              (case checkForOverlap (LHS lhs) (LHS rhs) of
                 None \<Rightarrow> Some (Inr (Continue maxIterations s0))
               | Some overlap \<Rightarrow>
                   if \<not> length overlap > 0 then Some (Inl AssertionFailure)
                   else
                     bindM (Some (Rule_apply lhs overlap)) (\<lambda>(applied1, first).
                     bindM (Some (Rule_apply rhs overlap)) (\<lambda>(applied2, second).
                       (let i = length (Rules s0)
                        in bindM (addRule graph first second s0) (\<lambda>(added, s1).
                             if \<not> added then Some (Inr (Continue maxIterations s1))
                             else if maxIterations = 0 then Some (Inr (Return MaxIterations s1))
                             else
                               (let newRule = Rules s1 ! i
                                in if getDepth newRule > maxDepth
                                   then Some (Inr (Return MaxDepth s1))
                                   else
                                     (let s2 = s1\<lparr>Rules :=
                                                retireRules [0..<length (Rules s1)] i (Rules s1)\<rparr>
                                      in bindM (processMergedAssociatedTypes graph s2) (\<lambda>s3.
                                           Some (Inr (Continue (maxIterations - 1) s3))))))))))))"

text \<open>The \<^verbatim>\<open>while (!Worklist.empty())\<close> loop, followed by the finalisation.\<close>

partial_function (option) completion_loop ::
  "ProtocolGraph \<Rightarrow> (Rule \<Rightarrow> nat) \<Rightarrow> nat \<Rightarrow> nat \<Rightarrow> RewriteSystem \<Rightarrow>
   (error + (CompletionResult \<times> RewriteSystem)) option" where
  "completion_loop graph getDepth maxIterations maxDepth s =
     (case Worklist s of
        [] \<Rightarrow> finalise graph s
      | pair # rest \<Rightarrow>
          bindM (completionIteration graph getDepth maxIterations maxDepth pair
                   (s\<lparr>Worklist := rest\<rparr>)) (\<lambda>it.
            case it of
              Continue maxIterations' s' \<Rightarrow>
                completion_loop graph getDepth maxIterations' maxDepth s'
            | Return result s' \<Rightarrow> Some (Inr (result, s'))))"

declare completion_loop.simps [code]

definition computeConfluentCompletion ::
  "ProtocolGraph \<Rightarrow> (Rule \<Rightarrow> nat) \<Rightarrow> nat \<Rightarrow> nat \<Rightarrow> RewriteSystem \<Rightarrow>
   (error + (CompletionResult \<times> RewriteSystem)) option" where
  "computeConfluentCompletion graph getDepth maxIterations maxDepth s =
     completion_loop graph getDepth maxIterations maxDepth s"

subsection \<open>initialize\<close>

text \<open>The sort of the input pairs by their first component, as for the rules above.\<close>

fun insertPair :: "ProtocolGraph \<Rightarrow> Term \<times> Term \<Rightarrow> (Term \<times> Term) list \<Rightarrow> error + (Term \<times> Term) list" where
  "insertPair graph r [] = Inr [r]"
| "insertPair graph r (x # xs) =
     (case Term_compare graph (fst x) (fst r) of
        Inl e \<Rightarrow> Inl e
      | Inr c \<Rightarrow>
          if c < 0
          then (case insertPair graph r xs of Inl e \<Rightarrow> Inl e | Inr ys \<Rightarrow> Inr (x # ys))
          else Inr (r # x # xs))"

fun sortPairs :: "ProtocolGraph \<Rightarrow> (Term \<times> Term) list \<Rightarrow> error + (Term \<times> Term) list" where
  "sortPairs graph [] = Inr []"
| "sortPairs graph (r # rs) =
     (case sortPairs graph rs of Inl e \<Rightarrow> Inl e | Inr ys \<Rightarrow> insertPair graph r ys)"

fun addRules :: "ProtocolGraph \<Rightarrow> (Term \<times> Term) list \<Rightarrow> RewriteSystem \<Rightarrow> (error + RewriteSystem) option" where
  "addRules graph [] s = Some (Inr s)"
| "addRules graph (rule # rules) s =
     bindM (addRule graph (fst rule) (snd rule) s) (\<lambda>(added, s'). addRules graph rules s')"

definition initialize ::
  "(Term \<times> Term) list \<Rightarrow> ProtocolGraph \<Rightarrow> RewriteSystem \<Rightarrow> (error + RewriteSystem) option" where
  "initialize rules graph s =
     bindM (Some (sortPairs graph rules)) (\<lambda>sorted.
       addRules graph sorted s)"

text \<open>A rewrite system before \<^verbatim>\<open>initialize\<close>: no rules, nothing queued.\<close>

definition emptySystem :: RewriteSystem where
  "emptySystem = \<lparr>Rules = [], MergedAssociatedTypes = [], Worklist = []\<rparr>"

section \<open>The term order in the words of the specification\<close>

text \<open>
  Section 3 of the specification: "shorter terms are smaller; equal length compared
  atom-wise left-to-right using atom order". \<open>shortlex_greater\<close> is that order, written
  from those words and without the assertions of \<^verbatim>\<open>Term::compare\<close>; the theorems relate
  the source's comparison to it.
\<close>

fun atoms_greater :: "ProtocolGraph \<Rightarrow> Term \<Rightarrow> Term \<Rightarrow> bool" where
  "atoms_greater graph (a # as) (b # bs) =
     (if Atom_compare graph a b \<noteq> 0 then Atom_compare graph a b > 0
      else atoms_greater graph as bs)"
| "atoms_greater graph as bs = False"

definition shortlex_greater :: "ProtocolGraph \<Rightarrow> Term \<Rightarrow> Term \<Rightarrow> bool" where
  "shortlex_greater graph l r =
     (length l > length r \<or> (length l = length r \<and> atoms_greater graph l r))"

section \<open>Concrete inputs\<close>

text \<open>
  A protocol graph for the examples: protocols are ordered by their handles, and
  protocol 1 inherits from protocol 2.
\<close>

definition exampleGraph :: ProtocolGraph where
  "exampleGraph =
     \<lparr>compareProtocols = (\<lambda>p q. if p < q then - 1 else if q < p then 1 else 0),
      inheritsFrom = (\<lambda>p q. p = 1 \<and> q = 2)\<rparr>"


definition chainSystem :: RewriteSystem where
  "chainSystem =
     \<lparr>Rules = [mkRule [forName ''b'', forName ''a''] [forName ''a'', forName ''b''],
               mkRule [forName ''c'', forName ''b''] [forName ''b'', forName ''c'']],
      MergedAssociatedTypes = [],
      Worklist = [(1, 0), (0, 1)]\<rparr>"


text \<open>Three rules; the critical pair of the first two is \<open>e.c.b \<rightarrow> d.g\<close>, which reduces the
  left-hand side of the third.\<close>

definition tombstoneRules :: "(Term \<times> Term) list" where
  "tombstoneRules =
     [([forName ''e'', forName ''f''], [forName ''d'']),
      ([forName ''f'', forName ''g''], [forName ''c'', forName ''b'']),
      ([forName ''h'', forName ''e'', forName ''c'', forName ''b''], [forName ''a''])]"

definition tombstoneSystem :: RewriteSystem where
  "tombstoneSystem =
     \<lparr>Rules = [mkRule [forName ''e'', forName ''f''] [forName ''d''],
               mkRule [forName ''f'', forName ''g''] [forName ''c'', forName ''b''],
               mkRule [forName ''h'', forName ''e'', forName ''c'', forName ''b''] [forName ''a'']],
      MergedAssociatedTypes = [],
      Worklist = [(1, 0), (0, 1), (2, 0), (0, 2), (2, 1), (1, 2)]\<rparr>"

text \<open>Four rules: a merge candidate \<open>[2:T] \<rightarrow> [1:T]\<close>, two rules with a critical pair, and a
  rule \<open>[1:T].[5] \<rightarrow> a\<close> whose left-hand side is an associated type followed by a protocol.\<close>

definition liftingRules :: "(Term \<times> Term) list" where
  "liftingRules =
     [([forAssociatedType [1] ''T''], [forAssociatedType [2] ''T'']),
      ([forAssociatedType [1] ''T'', forProtocol 5], [forName ''a'']),
      ([forName ''x'', forName ''y''], [forName ''z'']),
      ([forName ''y'', forName ''w''], [forName ''v''])]"

definition liftingSystem :: RewriteSystem where
  "liftingSystem =
     \<lparr>Rules = [mkRule [forAssociatedType [2] ''T''] [forAssociatedType [1] ''T''],
               mkRule [forName ''x'', forName ''y''] [forName ''z''],
               mkRule [forName ''y'', forName ''w''] [forName ''v''],
               mkRule [forAssociatedType [1] ''T'', forProtocol 5] [forName ''a'']],
      MergedAssociatedTypes = [([forAssociatedType [2] ''T''], [forAssociatedType [1] ''T''])],
      Worklist = [(1, 0), (0, 1), (2, 0), (0, 2), (2, 1), (1, 2),
                  (3, 0), (0, 3), (3, 1), (1, 3), (3, 2), (2, 3)]\<rparr>"

text \<open>Five rules: a merge candidate \<open>u.v.[2:T] \<rightarrow> u.v.[1:T]\<close>, two rules whose critical pair
  \<open>v.[2:T] \<rightarrow> p.k\<close> reduces the left-hand side of the candidate, and the two rules of an
  unbounded chain.\<close>

definition mergingRules :: "(Term \<times> Term) list" where
  "mergingRules =
     [([forName ''u'', forName ''v'', forAssociatedType [2] ''T''],
       [forName ''u'', forName ''v'', forAssociatedType [1] ''T'']),
      ([forName ''p'', forName ''q''], [forName ''v'']),
      ([forName ''q'', forAssociatedType [2] ''T''], [forName ''k'']),
      ([forName ''y'', forName ''x''], [forName ''x'', forName ''y'']),
      ([forName ''z'', forName ''y''], [forName ''y'', forName ''z''])]"

definition mergingSystem :: RewriteSystem where
  "mergingSystem =
     \<lparr>Rules = [mkRule [forName ''p'', forName ''q''] [forName ''v''],
               mkRule [forName ''q'', forAssociatedType [2] ''T''] [forName ''k''],
               mkRule [forName ''y'', forName ''x''] [forName ''x'', forName ''y''],
               mkRule [forName ''z'', forName ''y''] [forName ''y'', forName ''z''],
               mkRule [forName ''u'', forName ''v'', forAssociatedType [2] ''T'']
                      [forName ''u'', forName ''v'', forAssociatedType [1] ''T'']],
      MergedAssociatedTypes =
        [([forName ''u'', forName ''v'', forAssociatedType [2] ''T''],
          [forName ''u'', forName ''v'', forAssociatedType [1] ''T''])],
      Worklist = [(1, 0), (0, 1), (2, 0), (0, 2), (2, 1), (1, 2), (3, 0), (0, 3),
                  (3, 1), (1, 3), (3, 2), (2, 3), (4, 0), (0, 4), (4, 1), (1, 4),
                  (4, 2), (2, 4), (4, 3), (3, 4)]\<rparr>"

text \<open>
  The chain that \<open>chainRules\<close> start. The critical pair of \<open>c.a\<^sup>i.b \<rightarrow> b.c.a\<^sup>i\<close> and
  \<open>b.a \<rightarrow> a.b\<close> is the rule for \<open>i + 1\<close>: \<open>chainLHS i\<close> and \<open>chainRHS i\<close> are the two sides,
  \<open>chainVector j\<close> is the rule vector that holds the rules up to \<open>j\<close>, and \<open>chainState j W\<close>
  the system with that vector and the worklist \<open>W\<close>. \<open>chainWorklist j W\<close> says of the
  worklist what the loop needs: of the pairs with the rule \<open>b.a \<rightarrow> a.b\<close> in second place
  it holds exactly the pair of the last rule, and every pair is made of two different
  indices into the vector.
\<close>

definition chainLHS :: "nat \<Rightarrow> Term" where
  "chainLHS i = forName ''c'' # replicate i (forName ''a'') @ [forName ''b'']"

definition chainRHS :: "nat \<Rightarrow> Term" where
  "chainRHS i = forName ''b'' # forName ''c'' # replicate i (forName ''a'')"

definition chainVector :: "nat \<Rightarrow> Rule list" where
  "chainVector j =
     mkRule [forName ''b'', forName ''a''] [forName ''a'', forName ''b''] #
     map (\<lambda>i. mkRule (chainLHS i) (chainRHS i)) [0..<Suc j]"

definition chainState :: "nat \<Rightarrow> (nat \<times> nat) list \<Rightarrow> RewriteSystem" where
  "chainState j W = \<lparr>Rules = chainVector j, MergedAssociatedTypes = [], Worklist = W\<rparr>"

definition chainWorklist :: "nat \<Rightarrow> (nat \<times> nat) list \<Rightarrow> bool" where
  "chainWorklist j W =
     (filter (\<lambda>p. snd p = 0) W = [(Suc j, 0)] \<and>
      list_all (\<lambda>p. fst p < j + 2 \<and> snd p < j + 2 \<and> fst p \<noteq> snd p) W)"

section \<open>Observing the completion loop\<close>

text \<open>
  The state of the worklist loop after at most \<open>k\<close> runs of its body: the loop of
  \<open>completion_loop\<close>, cut off after \<open>k\<close> runs and without the finalisation.
\<close>

fun completion_steps ::
  "nat \<Rightarrow> ProtocolGraph \<Rightarrow> (Rule \<Rightarrow> nat) \<Rightarrow> nat \<Rightarrow> nat \<Rightarrow> RewriteSystem \<Rightarrow> (error + Iteration) option" where
  "completion_steps 0 graph getDepth maxIterations maxDepth s =
     Some (Inr (Continue maxIterations s))"
| "completion_steps (Suc k) graph getDepth maxIterations maxDepth s =
     (case Worklist s of
        [] \<Rightarrow> Some (Inr (Continue maxIterations s))
      | pair # rest \<Rightarrow>
          bindM (completionIteration graph getDepth maxIterations maxDepth pair
                   (s\<lparr>Worklist := rest\<rparr>)) (\<lambda>it.
            case it of
              Continue maxIterations' s' \<Rightarrow>
                completion_steps k graph getDepth maxIterations' maxDepth s'
            | Return result s' \<Rightarrow> Some (Inr (Return result s'))))"

text \<open>
  Systems in which no rule contains an associated-type atom and no merge candidate is
  queued: there \<^verbatim>\<open>processMergedAssociatedTypes\<close> has nothing to do, and the completion
  loop is the only producer of rules.
\<close>

definition plainTerm :: "Term \<Rightarrow> bool" where
  "plainTerm t = list_all (\<lambda>a. getKind a \<noteq> Kind_AssociatedType) t"

definition plainSystem :: "RewriteSystem \<Rightarrow> bool" where
  "plainSystem s =
     (MergedAssociatedTypes s = [] \<and>
      list_all (\<lambda>r. plainTerm (LHS r) \<and> plainTerm (RHS r)) (Rules s))"

text \<open>
  What the specification asks of the protocol graph, "a total order on protocols", as far
  as the orientation of rules needs it: swapping the arguments of \<open>compareProtocols\<close>
  flips the sign of the result.
\<close>

definition flipped :: "int \<Rightarrow> int \<Rightarrow> bool" where
  "flipped c c' = ((c < 0 \<longrightarrow> c' > 0) \<and> (c > 0 \<longrightarrow> c' < 0) \<and> (c = 0 \<longrightarrow> c' = 0))"

definition antisymmetricGraph :: "ProtocolGraph \<Rightarrow> bool" where
  "antisymmetricGraph graph =
     (\<forall>p q. flipped (compareProtocols graph p q) (compareProtocols graph q p))"

text \<open>
  The rules of \<open>old\<close> are still in \<open>new\<close>, at their indices and with their sides, and
  those that were deleted are deleted.
\<close>

definition keepsRules :: "Rule list \<Rightarrow> Rule list \<Rightarrow> bool" where
  "keepsRules old new =
     (length old \<le> length new \<and>
      (\<forall>k < length old. LHS (new ! k) = LHS (old ! k) \<and> RHS (new ! k) = RHS (old ! k) \<and>
                          (deleted (old ! k) \<longrightarrow> deleted (new ! k))))"

section \<open>Properties of addRule\<close>

lemma addRule_true:
  assumes "addRule graph lhs rhs s = Some (Inr (True, s'))"
  shows "\<exists>r c. Rules s' = Rules s @ [r] \<and> \<not> deleted r \<and>
           Term_compare graph (LHS r) (RHS r) = Inr c \<and> c > 0"
  using assms
  by (auto simp: addRule_def bindM_def Let_def mkRule_def
           split: option.splits sum.splits prod.splits if_splits)

lemma Term_compare_atoms_greater:
  "Term_compare_atoms graph l r = Inr c \<Longrightarrow> length l = length r \<Longrightarrow> 0 < c \<Longrightarrow>
   atoms_greater graph l r"
  by (induction graph l r rule: Term_compare_atoms.induct) (auto simp: Let_def split: if_splits)

lemma Term_compare_shortlex:
  "Term_compare graph l r = Inr c \<Longrightarrow> 0 < c \<Longrightarrow> shortlex_greater graph l r"
  by (auto simp: Term_compare_def shortlex_greater_def split: if_splits
           dest: Term_compare_atoms_greater)

text \<open>
  Claim C7. If \<open>addRule\<close> returns true, it has appended exactly one rule, and that rule's
  left-hand side is greater than its right-hand side: \<^verbatim>\<open>Term::compare\<close> returns a
  positive number for them, which is the shortlex order of the specification (longer
  terms are greater; terms of one length are compared atom by atom with
  \<^verbatim>\<open>Atom::compare\<close>).
\<close>

theorem addRule_oriented:
  assumes "addRule graph lhs rhs s = Some (Inr (True, s'))"
  shows "\<exists>r c. Rules s' = Rules s @ [r] \<and> Term_compare graph (LHS r) (RHS r) = Inr c \<and> c > 0
           \<and> shortlex_greater graph (LHS r) (RHS r)"
  using addRule_true [OF assms] by (auto dest: Term_compare_shortlex)

theorem addRule_oriented_witness:
  "addRule exampleGraph [forName ''a''] [forName ''b''] emptySystem
     = Some (Inr (True, \<lparr>Rules = [mkRule [forName ''b''] [forName ''a'']],
                          MergedAssociatedTypes = [], Worklist = []\<rparr>))
   \<and> (\<exists>r c. Rules \<lparr>Rules = [mkRule [forName ''b''] [forName ''a'']],
                      MergedAssociatedTypes = [], Worklist = []\<rparr> = Rules emptySystem @ [r]
         \<and> Term_compare exampleGraph (LHS r) (RHS r) = Inr c \<and> c > 0
         \<and> shortlex_greater exampleGraph (LHS r) (RHS r))"
proof -
  have h: "addRule exampleGraph [forName ''a''] [forName ''b''] emptySystem
     = Some (Inr (True, \<lparr>Rules = [mkRule [forName ''b''] [forName ''a'']],
                          MergedAssociatedTypes = [], Worklist = []\<rparr>))"
    by code_simp
  from addRule_oriented [OF h] h show ?thesis by blast
qed

text \<open>
  Claim C10. If \<open>addRule\<close> returns false, the rewrite system after the call is the
  system before it: the rule vector, the worklist, the merge candidates and every
  rule's deleted flag are unchanged.
\<close>

theorem addRule_false_unchanged:
  "addRule graph lhs rhs s = Some (Inr (False, s')) \<Longrightarrow> s' = s"
  by (auto simp: addRule_def bindM_def Let_def
           split: option.splits sum.splits prod.splits if_splits)

theorem addRule_false_unchanged_witness:
  "addRule exampleGraph [forName ''a''] [forName ''a''] emptySystem
     = Some (Inr (False, emptySystem))"
proof -
  have h: "addRule exampleGraph [forName ''a''] [forName ''a''] emptySystem
     = Some (Inr (False, emptySystem))"
    by code_simp
  from addRule_false_unchanged [OF h] h show ?thesis by simp
qed

text \<open>
  The assertion of line 250 cannot fail when the graph's comparison is antisymmetric:
  the swap of line 248 then turns a negative comparison into a positive one, and
  \<open>addRule\<close> returns true or false whenever both sides simplify and compare.
\<close>

lemma Identifier_compare_flipped:
  "flipped (Identifier_compare n m) (Identifier_compare m n)"
  by (induction n m rule: Identifier_compare.induct) (auto simp: flipped_def)

lemma compareProtocolLists_Nil: "compareProtocolLists graph qs [] = 0"
  by (cases qs) simp_all

lemma compareProtocolLists_flipped:
  "antisymmetricGraph graph \<Longrightarrow>
   flipped (compareProtocolLists graph ps qs) (compareProtocolLists graph qs ps)"
proof (induction graph ps qs rule: compareProtocolLists.induct)
  case (1 graph p ps q qs)
  then have "flipped (compareProtocols graph p q) (compareProtocols graph q p)"
    by (simp add: antisymmetricGraph_def)
  with 1 show ?case by (auto simp: flipped_def Let_def)
qed (simp_all add: flipped_def compareProtocolLists_Nil)

lemma kind_index_inj: "kind_index k = kind_index k' \<Longrightarrow> k = k'"
  by (cases k; cases k') simp_all

lemma Atom_compare_flipped:
  assumes "antisymmetricGraph graph"
  shows "flipped (Atom_compare graph a b) (Atom_compare graph b a)"
proof (cases "getKind a = getKind b")
  case False
  then have "kind_index (getKind a) \<noteq> kind_index (getKind b)" using kind_index_inj by blast
  with False show ?thesis by (cases a; cases b) (auto simp: flipped_def)
next
  case True
  show ?thesis
  proof (cases a)
    case (forName n)
    with True obtain m where "b = forName m" by (cases b) simp_all
    with forName show ?thesis by (simp add: Identifier_compare_flipped)
  next
    case (forProtocol p)
    with True obtain q where "b = forProtocol q" by (cases b) simp_all
    with forProtocol assms show ?thesis by (simp add: antisymmetricGraph_def)
  next
    case (forAssociatedType ps n)
    with True obtain qs m where b: "b = forAssociatedType qs m" by (cases b) simp_all
    from compareProtocolLists_flipped [OF assms, of ps qs] Identifier_compare_flipped [of n m]
    show ?thesis unfolding forAssociatedType b by (auto simp: flipped_def Let_def)
  next
    case (forGenericParam d i)
    with True obtain d' i' where "b = forGenericParam d' i'" by (cases b) simp_all
    with forGenericParam show ?thesis by (auto simp: flipped_def)
  next
    case (forLayout l)
    with True obtain l' where "b = forLayout l'" by (cases b) simp_all
    with forLayout show ?thesis by (auto simp: flipped_def LayoutConstraint_compare_def)
  qed
qed

lemma Term_compare_atoms_Nil: "Term_compare_atoms graph rs [] = Inr 0"
  by (cases rs) simp_all

lemma Term_compare_atoms_flipped:
  "antisymmetricGraph graph \<Longrightarrow> Term_compare_atoms graph l r = Inr c \<Longrightarrow>
   \<exists>c'. Term_compare_atoms graph r l = Inr c' \<and> flipped c c'"
proof (induction graph l r rule: Term_compare_atoms.induct)
  case (1 graph lhs ls rhs rs)
  from Atom_compare_flipped [OF "1.prems"(1), of lhs rhs]
  have f: "flipped (Atom_compare graph lhs rhs) (Atom_compare graph rhs lhs)" .
  show ?case
  proof (cases "Atom_compare graph lhs rhs = 0")
    case True
    with "1.prems"(2) have eq: "lhs = rhs" and rest: "Term_compare_atoms graph ls rs = Inr c"
      by (simp_all add: Let_def split: if_splits)
    from f True have "Atom_compare graph rhs lhs = 0" by (simp add: flipped_def)
    moreover from "1.IH" True eq rest "1.prems"(1)
    obtain c' where "Term_compare_atoms graph rs ls = Inr c'" "flipped c c'" by auto
    ultimately show ?thesis using eq by (simp add: Let_def)
  next
    case False
    with "1.prems"(2) have ne: "lhs \<noteq> rhs" and c: "c = Atom_compare graph lhs rhs"
      by (auto simp: Let_def split: if_splits)
    from f False have "Atom_compare graph rhs lhs \<noteq> 0" by (auto simp: flipped_def)
    with ne f c show ?thesis by (auto simp: Let_def)
  qed
qed (simp_all add: flipped_def Term_compare_atoms_Nil)

lemma Term_compare_flipped:
  assumes "antisymmetricGraph graph" "Term_compare graph l r = Inr c"
  shows "\<exists>c'. Term_compare graph r l = Inr c' \<and> flipped c c'"
proof (cases "length l = length r")
  case True
  with assms(2) have "Term_compare_atoms graph l r = Inr c" by (simp add: Term_compare_def)
  from Term_compare_atoms_flipped [OF assms(1) this] True show ?thesis
    by (simp add: Term_compare_def)
next
  case False
  with assms(2) show ?thesis by (auto simp: Term_compare_def flipped_def)
qed

lemma addRule_orientation_holds:
  assumes g: "antisymmetricGraph graph"
    and s1: "simplify s lhs = Some (Inr (c1, lhs1))"
    and s2: "simplify s rhs = Some (Inr (c2, rhs1))"
    and cmp: "Term_compare graph lhs1 rhs1 = Inr result"
  shows "\<exists>b s'. addRule graph lhs rhs s = Some (Inr (b, s'))"
proof (cases "result < 0")
  case True
  from Term_compare_flipped [OF g cmp] True obtain c' where
    "Term_compare graph rhs1 lhs1 = Inr c'" "c' > 0" by (auto simp: flipped_def)
  with s1 s2 cmp True show ?thesis by (auto simp: addRule_def bindM_def Let_def)
next
  case False
  with s1 s2 cmp show ?thesis by (auto simp: addRule_def bindM_def Let_def)
qed

lemma exampleGraph_antisymmetric: "antisymmetricGraph exampleGraph"
  by (simp add: antisymmetricGraph_def exampleGraph_def flipped_def)

section \<open>Properties of simplify\<close>

lemma simplify_pass_True:
  "simplify_pass rules t True = Inr (t', b) \<Longrightarrow> b"
  by (induction rules arbitrary: t) (auto split: if_splits sum.splits prod.splits)

lemma simplify_pass_False:
  "simplify_pass rules t False = Inr (t', False) \<Longrightarrow> t' = t"
  by (induction rules arbitrary: t)
     (auto split: if_splits sum.splits prod.splits dest: simplify_pass_True
           simp: Rule_apply_def rewriteSubTerm_def Let_def)

lemma simplify_loop_normal_form:
  assumes "simplify_loop rules t changed = Some y"
  shows "\<forall>c t'. y = Inr (c, t') \<longrightarrow> simplify_pass rules t' False = Inr (t', False)"
  using assms
proof (induction rules t changed y rule: simplify_loop.raw_induct [rotated 1, consumes 1])
  case (1 simplify_loop' rules t changed y)
  then show ?case
    apply (auto split: sum.splits prod.splits if_splits)
    apply (frule simplify_pass_False)
    apply simp
    done
qed

text \<open>
  Claim C8. For a fixed rule set, if \<open>simplify\<close> returns on a term \<open>t\<close> with the term
  \<open>t'\<close>, then \<open>simplify\<close> on \<open>t'\<close> returns false and leaves \<open>t'\<close> as it is.
\<close>

theorem simplify_idempotent:
  assumes "simplify s t = Some (Inr (changed, t'))"
  shows "simplify s t' = Some (Inr (False, t'))"
proof -
  from assms have "simplify_loop (Rules s) t False = Some (Inr (changed, t'))"
    by (simp add: simplify_def)
  then have "simplify_pass (Rules s) t' False = Inr (t', False)"
    using simplify_loop_normal_form by blast
  then show ?thesis
    by (simp add: simplify_def simplify_loop.simps)
qed

theorem simplify_idempotent_witness:
  "simplify \<lparr>Rules = [mkRule [forName ''b''] [forName ''a''],
                       mkRule [forName ''c''] [forName ''b'']],
             MergedAssociatedTypes = [], Worklist = [(1, 0), (0, 1)]\<rparr> [forName ''c'']
     = Some (Inr (True, [forName ''a'']))
   \<and> simplify \<lparr>Rules = [mkRule [forName ''b''] [forName ''a''],
                         mkRule [forName ''c''] [forName ''b'']],
               MergedAssociatedTypes = [], Worklist = [(1, 0), (0, 1)]\<rparr> [forName ''a'']
     = Some (Inr (False, [forName ''a'']))"
proof -
  have h: "simplify \<lparr>Rules = [mkRule [forName ''b''] [forName ''a''],
                       mkRule [forName ''c''] [forName ''b'']],
             MergedAssociatedTypes = [], Worklist = [(1, 0), (0, 1)]\<rparr> [forName ''c'']
     = Some (Inr (True, [forName ''a'']))"
    by code_simp
  from simplify_idempotent [OF h] h show ?thesis by simp
qed

section \<open>Properties of checkForOverlap\<close>


lemma overlap_contained_None:
  "overlap_contained self other i = None \<Longrightarrow>
   \<exists>j. i \<le> j \<and> j + length other \<le> length self \<and> take (length other) (drop j self) = other"
proof (induction self other i rule: overlap_contained.induct)
  case (1 self other first1)
  show ?case
  proof (cases "first1 + length other \<le> length self")
    case True
    show ?thesis
    proof (cases "take (length other) (drop first1 self) = other")
      case True
      with \<open>first1 + length other \<le> length self\<close> show ?thesis by blast
    next
      case False
      with True 1 have "overlap_contained self other (Suc first1) = None"
        by (simp add: overlap_contained.simps [of self other first1])
      with 1 True False obtain j where "Suc first1 \<le> j" "j + length other \<le> length self"
          "take (length other) (drop j self) = other"
        by blast
      then show ?thesis by (metis Suc_leD)
    qed
  next
    case False
    with 1 show ?thesis by (simp add: overlap_contained.simps [of self other first1])
  qed
qed

lemma overlap_contained_Some:
  "overlap_contained self other i = Some j \<Longrightarrow> length other \<le> length self \<Longrightarrow>
   i \<le> Suc (length self) - length other \<Longrightarrow> j = Suc (length self) - length other"
proof (induction self other i rule: overlap_contained.induct)
  case (1 self other first1)
  show ?case
  proof (cases "first1 + length other \<le> length self")
    case True
    with 1 show ?thesis
      by (simp add: overlap_contained.simps [of self other first1] split: if_splits)
  next
    case False
    with 1 show ?thesis by (simp add: overlap_contained.simps [of self other first1])
  qed
qed

lemma overlap_suffix_Some:
  "overlap_suffix self other i = Some R \<Longrightarrow>
   \<exists>j. i \<le> j \<and> j < length self \<and> drop j self = take (length self - j) other \<and>
       R = take j self @ other"
proof (induction self other i rule: overlap_suffix.induct)
  case (1 self other first1)
  show ?case
  proof (cases "first1 < length self")
    case True
    show ?thesis
    proof (cases "drop first1 self = take (length self - first1) other")
      case m: True
      with True 1 show ?thesis by (auto simp: overlap_suffix.simps [of self other first1])
    next
      case False
      with True 1 have "overlap_suffix self other (Suc first1) = Some R"
        by (simp add: overlap_suffix.simps [of self other first1])
      with 1 True False obtain j where "Suc first1 \<le> j" "j < length self"
        "drop j self = take (length self - j) other" "R = take j self @ other" by blast
      then show ?thesis by (metis Suc_leD)
    qed
  next
    case False
    with 1 show ?thesis by (simp add: overlap_suffix.simps [of self other first1])
  qed
qed

lemma overlap_suffix_finds:
  "i \<le> p \<Longrightarrow> p < length self \<Longrightarrow> drop p self = take (length self - p) other \<Longrightarrow>
   \<exists>j. i \<le> j \<and> j \<le> p \<and> drop j self = take (length self - j) other \<and>
       overlap_suffix self other i = Some (take j self @ other)"
proof (induction self other i rule: overlap_suffix.induct)
  case (1 self other first1)
  from 1 have lt: "first1 < length self" by simp
  show ?case
  proof (cases "drop first1 self = take (length self - first1) other")
    case True
    with lt 1 show ?thesis by (auto simp: overlap_suffix.simps [of self other first1])
  next
    case False
    with 1 have "first1 \<noteq> p" by auto
    with 1 have "Suc first1 \<le> p" by simp
    with 1 lt False obtain j where "Suc first1 \<le> j" "j \<le> p"
      "drop j self = take (length self - j) other"
      "overlap_suffix self other (Suc first1) = Some (take j self @ other)" by blast
    with lt False show ?thesis
      by (auto simp: overlap_suffix.simps [of self other first1] intro: Suc_leD)
  qed
qed

lemma overlap_joined:
  assumes "drop j self = take (length self - j) other"
  shows "take j self @ other = self @ drop (length self - j) other"
proof -
  have "take j self @ other = take j self @ take (length self - j) other @ drop (length self - j) other"
    by simp
  also have "\<dots> = (take j self @ drop j self) @ drop (length self - j) other"
    using assms by simp
  finally show ?thesis by simp
qed

lemma take_drop_sublist:
  "j + length other \<le> length self \<Longrightarrow> take (length other) (drop j self) = other \<Longrightarrow> sublist other self"
  by (metis append_take_drop_id sublist_appendI)

lemma checkForOverlap_cases:
  assumes "checkForOverlap A B = Some R"
  shows "(R = A \<and> sublist B A) \<or>
         (\<exists>j. j < length A \<and> drop j A = take (length A - j) B \<and> R = A @ drop (length A - j) B)"
proof (cases "overlap_contained A B 0")
  case None
  with assms have "R = A" by (simp add: checkForOverlap_def split: if_splits)
  moreover from None have "sublist B A"
    using overlap_contained_None take_drop_sublist by blast
  ultimately show ?thesis by simp
next
  case (Some first1)
  with assms have "overlap_suffix A B first1 = Some R"
    by (simp add: checkForOverlap_def split: if_splits)
  then obtain j where "j < length A" "drop j A = take (length A - j) B" "R = take j A @ B"
    using overlap_suffix_Some by blast
  then show ?thesis using overlap_joined by blast
qed

lemma std_search_found:
  "sublist xs t \<Longrightarrow> xs \<noteq> [] \<Longrightarrow> std_search t xs < length t"
proof (induction t)
  case Nil
  then show ?case by simp
next
  case (Cons y ys)
  show ?case
  proof (cases "take (length xs) (y # ys) = xs")
    case True
    then show ?thesis by simp
  next
    case False
    then have "\<not> prefix xs (y # ys)" by (auto simp: prefix_def)
    with Cons.prems have "sublist xs ys" by (simp add: sublist_Cons_right)
    with Cons False show ?thesis by simp
  qed
qed

lemma Term_compare_positive:
  assumes "Term_compare graph l r = Inr c" "0 < c"
  shows "length r \<le> length l \<and> l \<noteq> []"
  using assms by (cases l) (auto simp: Term_compare_def split: if_splits)

lemma Rule_apply_succeeds:
  assumes "sublist (LHS rule) R" "Term_compare graph (LHS rule) (RHS rule) = Inr c" "0 < c"
  shows "\<exists>t. Rule_apply rule R = Inr (True, t)"
proof -
  from Term_compare_positive [OF assms(2,3)]
  have len: "length (RHS rule) \<le> length (LHS rule)" and ne: "LHS rule \<noteq> []" by simp_all
  from assms(1) ne have "std_search R (LHS rule) < length R" by (rule std_search_found)
  moreover from assms(1) have "length (LHS rule) \<le> length R" by (rule sublist_length_le)
  ultimately have "findSubTerm R (LHS rule) \<noteq> length R" by (simp add: findSubTerm_def)
  with len show ?thesis by (simp add: Rule_apply_def rewriteSubTerm_def Let_def)
qed

text \<open>
  Claim C6. If \<open>A.checkForOverlap(B, result)\<close> returns true, then the result is \<open>A\<close>
  itself with \<open>B\<close> inside it, or it is \<open>A\<close> followed by a suffix of \<open>B\<close>. In both cases
  \<open>A\<close> and \<open>B\<close> occur in the result as contiguous subterms, and applying to the result a
  rule whose left-hand side is \<open>A\<close>, or one whose left-hand side is \<open>B\<close>, succeeds. A rule
  is an oriented pair: \<^verbatim>\<open>Term::compare\<close> of its sides is positive.
\<close>

theorem checkForOverlap_sound:
  assumes "checkForOverlap A B = Some R"
  shows "((R = A \<and> sublist B R) \<or> (\<exists>s. suffix s B \<and> R = A @ s)) \<and>
         sublist A R \<and> sublist B R \<and>
         (\<forall>rule c. LHS rule = A \<and> Term_compare graph (LHS rule) (RHS rule) = Inr c \<and> 0 < c
             \<longrightarrow> (\<exists>t. Rule_apply rule R = Inr (True, t))) \<and>
         (\<forall>rule c. LHS rule = B \<and> Term_compare graph (LHS rule) (RHS rule) = Inr c \<and> 0 < c
             \<longrightarrow> (\<exists>t. Rule_apply rule R = Inr (True, t)))"
proof -
  from checkForOverlap_cases [OF assms]
  have shape: "(R = A \<and> sublist B R) \<or> (\<exists>s. suffix s B \<and> R = A @ s)"
    by (auto intro: suffix_drop)
  from checkForOverlap_cases [OF assms] have subA: "sublist A R"
    by auto
  from checkForOverlap_cases [OF assms] have subB: "sublist B R"
  proof
    assume "R = A \<and> sublist B A"
    then show ?thesis by simp
  next
    assume "\<exists>j. j < length A \<and> drop j A = take (length A - j) B \<and> R = A @ drop (length A - j) B"
    then obtain j where j: "drop j A = take (length A - j) B" "R = A @ drop (length A - j) B"
      by blast
    from j(2) overlap_joined [OF j(1)] have "R = take j A @ B" by simp
    then show ?thesis by simp
  qed
  from subA have appA: "\<forall>rule c. LHS rule = A \<and> Term_compare graph (LHS rule) (RHS rule) = Inr c \<and> 0 < c
             \<longrightarrow> (\<exists>t. Rule_apply rule R = Inr (True, t))"
    using Rule_apply_succeeds by blast
  from subB have appB: "\<forall>rule c. LHS rule = B \<and> Term_compare graph (LHS rule) (RHS rule) = Inr c \<and> 0 < c
             \<longrightarrow> (\<exists>t. Rule_apply rule R = Inr (True, t))"
    using Rule_apply_succeeds by blast
  from shape subA subB appA appB show ?thesis by blast
qed

theorem checkForOverlap_sound_witness:
  "checkForOverlap [forName ''x'', forName ''y''] [forName ''y'', forName ''w'']
     = Some [forName ''x'', forName ''y'', forName ''w'']
   \<and> sublist [forName ''x'', forName ''y''] [forName ''x'', forName ''y'', forName ''w'']
   \<and> sublist [forName ''y'', forName ''w''] [forName ''x'', forName ''y'', forName ''w'']
   \<and> (\<exists>t. Rule_apply (mkRule [forName ''x'', forName ''y''] [forName ''z''])
              [forName ''x'', forName ''y'', forName ''w''] = Inr (True, t))
   \<and> (\<exists>t. Rule_apply (mkRule [forName ''y'', forName ''w''] [forName ''v''])
              [forName ''x'', forName ''y'', forName ''w''] = Inr (True, t))"
proof -
  have h: "checkForOverlap [forName ''x'', forName ''y''] [forName ''y'', forName ''w'']
     = Some [forName ''x'', forName ''y'', forName ''w'']"
    by code_simp
  have c1: "LHS (mkRule [forName ''x'', forName ''y''] [forName ''z'']) = [forName ''x'', forName ''y'']
     \<and> Term_compare exampleGraph (LHS (mkRule [forName ''x'', forName ''y''] [forName ''z'']))
          (RHS (mkRule [forName ''x'', forName ''y''] [forName ''z''])) = Inr 1 \<and> (0::int) < 1"
    by code_simp
  have c2: "LHS (mkRule [forName ''y'', forName ''w''] [forName ''v'']) = [forName ''y'', forName ''w'']
     \<and> Term_compare exampleGraph (LHS (mkRule [forName ''y'', forName ''w''] [forName ''v'']))
          (RHS (mkRule [forName ''y'', forName ''w''] [forName ''v''])) = Inr 1 \<and> (0::int) < 1"
    by code_simp
  from checkForOverlap_sound [OF h, of exampleGraph] h c1 c2 show ?thesis by blast
qed

text \<open>
  Claim C5, as amended. The source returns false at once when \<open>other\<close> is longer than
  the term (line 171). So the claim holds for an \<open>other\<close> that is not longer: if
  \<open>other\<close> does not occur in \<open>self\<close> as a contiguous subterm and the last \<open>k\<close> atoms of
  \<open>self\<close> (a non-empty proper suffix) are the first \<open>k\<close> atoms of \<open>other\<close>, then
  \<open>checkForOverlap\<close> returns true and the result is \<open>self\<close> followed by \<open>other\<close> without
  its first \<open>k'\<close> atoms, where \<open>k'\<close> is the longest such overlap. And for every \<open>other\<close>
  that is longer than \<open>self\<close>, \<open>checkForOverlap\<close> returns false.
\<close>

theorem checkForOverlap_suffix_prefix:
  "(length other \<le> length self \<and> \<not> sublist other self \<and>
    0 < k \<and> k < length self \<and> drop (length self - k) self = take k other \<longrightarrow>
      (\<exists>k'. k \<le> k' \<and> k' < length other \<and>
            drop (length self - k') self = take k' other \<and>
            checkForOverlap self other = Some (self @ drop k' other)))
   \<and> (length self < length other \<longrightarrow> checkForOverlap self other = None)"
proof (intro conjI impI)
  assume "length self < length other"
  then show "checkForOverlap self other = None" by (simp add: checkForOverlap_def)
next
  assume h: "length other \<le> length self \<and> \<not> sublist other self \<and>
    0 < k \<and> k < length self \<and> drop (length self - k) self = take k other"
  then have le: "length other \<le> length self"
    and nsub: "\<not> sublist other self"
    and k0: "0 < k" and kn: "k < length self"
    and ov: "drop (length self - k) self = take k other"
    by simp_all
  from ov have "length (drop (length self - k) self) = length (take k other)" by simp
  with kn have km: "k \<le> length other" by simp
  have "k \<noteq> length other"
  proof
    assume "k = length other"
    with ov have "other = drop (length self - k) self" by simp
    then have "sublist other self" by (metis sublist_drop)
    with nsub show False by simp
  qed
  with km have klt: "k < length other" by simp
  have "overlap_contained self other 0 \<noteq> None"
    using overlap_contained_None take_drop_sublist nsub by blast
  then obtain j0 where j0: "overlap_contained self other 0 = Some j0" by blast
  with le have j0_eq: "j0 = Suc (length self) - length other"
    using overlap_contained_Some by simp
  define p where "p = length self - k"
  from klt kn k0 le have p1: "j0 \<le> p" and p2: "p < length self" and p3: "length self - p = k"
    by (simp_all add: p_def j0_eq)
  from ov p3 have "drop p self = take (length self - p) other" by (simp add: p_def)
  with p1 p2 obtain j where j: "j0 \<le> j" "j \<le> p"
      "drop j self = take (length self - j) other"
      "overlap_suffix self other j0 = Some (take j self @ other)"
    using overlap_suffix_finds by blast
  define k' where "k' = length self - j"
  from j(1,2) klt le p2 have "k \<le> k'" "k' < length other" "length self - k' = j"
    by (simp_all add: k'_def p_def j0_eq)
  moreover from j(3) \<open>length self - k' = j\<close> have "drop (length self - k') self = take k' other"
    by (simp add: k'_def)
  moreover from le j0 j(4) overlap_joined [OF j(3)]
  have "checkForOverlap self other = Some (self @ drop k' other)"
    by (simp add: checkForOverlap_def k'_def)
  ultimately show "\<exists>k'. k \<le> k' \<and> k' < length other \<and>
            drop (length self - k') self = take k' other \<and>
            checkForOverlap self other = Some (self @ drop k' other)"
    by blast
qed

theorem checkForOverlap_suffix_prefix_witness:
  "checkForOverlap [forName ''x'', forName ''y'', forName ''z'']
                   [forName ''y'', forName ''z'', forName ''w'']
     = Some ([forName ''x'', forName ''y'', forName ''z''] @ [forName ''w''])
   \<and> length [forName ''z''] < length [forName ''z'', forName ''w'']
   \<and> checkForOverlap [forName ''z''] [forName ''z'', forName ''w''] = None"
proof -
  have h: "length [forName ''y'', forName ''z'', forName ''w'']
             \<le> length [forName ''x'', forName ''y'', forName ''z'']
     \<and> \<not> sublist [forName ''y'', forName ''z'', forName ''w''] [forName ''x'', forName ''y'', forName ''z'']
     \<and> (0::nat) < 2 \<and> 2 < length [forName ''x'', forName ''y'', forName ''z'']
     \<and> drop (length [forName ''x'', forName ''y'', forName ''z''] - 2) [forName ''x'', forName ''y'', forName ''z'']
         = take 2 [forName ''y'', forName ''z'', forName ''w'']"
    by code_simp
  from checkForOverlap_suffix_prefix [where other = "[forName ''y'', forName ''z'', forName ''w'']"
         and self = "[forName ''x'', forName ''y'', forName ''z'']" and k = 2] h
  obtain k' where "2 \<le> k'" "k' < 3"
    "checkForOverlap [forName ''x'', forName ''y'', forName ''z'']
                   [forName ''y'', forName ''z'', forName ''w'']
     = Some ([forName ''x'', forName ''y'', forName ''z''] @ drop k' [forName ''y'', forName ''z'', forName ''w''])"
    by auto
  moreover from this have "k' = 2" by simp
  moreover have l: "length [forName ''z''] < length [forName ''z'', forName ''w'']" by simp
  moreover from checkForOverlap_suffix_prefix [where other = "[forName ''z'', forName ''w'']"
         and self = "[forName ''z'']"] l
  have "checkForOverlap [forName ''z''] [forName ''z'', forName ''w''] = None" by blast
  ultimately show ?thesis by simp
qed

text \<open>
  Claim C5 as stated ("with no restriction on the relative lengths") fails: the last
  atom of \<open>x.y\<close> is the first atom of \<open>y.w.v\<close>, which does not occur in \<open>x.y\<close>, and
  \<open>checkForOverlap\<close> returns false.
\<close>

theorem checkForOverlap_longer_other_counterexample:
  "\<not> sublist [forName ''y'', forName ''w'', forName ''v''] [forName ''x'', forName ''y'']
   \<and> drop 1 [forName ''x'', forName ''y''] = take 1 [forName ''y'', forName ''w'', forName ''v'']
   \<and> checkForOverlap [forName ''x'', forName ''y''] [forName ''y'', forName ''w'', forName ''v''] = None"
  by code_simp

section \<open>The completion loop and its budget\<close>

lemma plainTerm_set: "plainTerm t = (\<forall>a \<in> set t. getKind a \<noteq> Kind_AssociatedType)"
  by (simp add: plainTerm_def list_all_iff)

lemma plainTerm_append [simp]: "plainTerm (xs @ ys) = (plainTerm xs \<and> plainTerm ys)"
  by (auto simp: plainTerm_set)

lemma plainTerm_take: "plainTerm t \<Longrightarrow> plainTerm (take n t)"
  by (auto simp: plainTerm_set dest: in_set_takeD)

lemma plainTerm_drop: "plainTerm t \<Longrightarrow> plainTerm (drop n t)"
  by (auto simp: plainTerm_set dest: in_set_dropD)

lemma rewriteSubTerm_plain:
  "rewriteSubTerm t lhs rhs = Inr (b, t') \<Longrightarrow> plainTerm t \<Longrightarrow> plainTerm rhs \<Longrightarrow> plainTerm t'"
  by (auto simp: rewriteSubTerm_def Let_def plainTerm_take plainTerm_drop split: if_splits)

lemma simplify_pass_plain:
  "simplify_pass rules t b = Inr (t', b') \<Longrightarrow> plainTerm t \<Longrightarrow>
   list_all (\<lambda>r. plainTerm (LHS r) \<and> plainTerm (RHS r)) rules \<Longrightarrow> plainTerm t'"
proof (induction rules arbitrary: t b)
  case Nil
  then show ?case by simp
next
  case (Cons rule rules)
  show ?case
  proof (cases "isDeleted rule")
    case True
    with Cons show ?thesis by simp
  next
    case False
    with Cons.prems(1) obtain applied t1 where
      ap: "Rule_apply rule t = Inr (applied, t1)" and
      rest: "simplify_pass rules t1 (if applied then True else b) = Inr (t', b')"
      by (auto split: sum.splits prod.splits)
    from ap Cons.prems(2,3) have "plainTerm t1"
      by (auto simp: Rule_apply_def dest: rewriteSubTerm_plain)
    with rest Cons show ?thesis by simp
  qed
qed

lemma simplify_loop_plain:
  assumes "simplify_loop rules t changed = Some y"
  shows "plainTerm t \<longrightarrow> list_all (\<lambda>r. plainTerm (LHS r) \<and> plainTerm (RHS r)) rules \<longrightarrow>
         (\<forall>c t'. y = Inr (c, t') \<longrightarrow> plainTerm t')"
  using assms
proof (induction rules t changed y rule: simplify_loop.raw_induct [rotated 1, consumes 1])
  case (1 simplify_loop' rules t changed y)
  show ?case
  proof (intro impI allI)
    fix c t'
    assume pt: "plainTerm t" and pr: "list_all (\<lambda>r. plainTerm (LHS r) \<and> plainTerm (RHS r)) rules"
      and y: "y = Inr (c, t')"
    from 1(2) y obtain t1 again where
      pass: "simplify_pass rules t False = Inr (t1, again)"
      by (auto split: sum.splits prod.splits if_splits)
    from simplify_pass_plain [OF pass pt pr] have p1: "plainTerm t1" .
    show "plainTerm t'"
    proof (cases again)
      case True
      with 1(2) pass have "simplify_loop' rules t1 True = Some y" by simp
      from 1(1) [OF this] p1 pr y show ?thesis by blast
    next
      case False
      with 1(2) pass y have "t' = t1" by simp
      with p1 show ?thesis by simp
    qed
  qed
qed

lemma simplify_plain:
  assumes "simplify s t = Some (Inr (c, t'))" "plainSystem s" "plainTerm t"
  shows "plainTerm t'"
proof -
  from assms(1) have "simplify_loop (Rules s) t False = Some (Inr (c, t'))"
    by (simp add: simplify_def)
  from simplify_loop_plain [OF this] assms(2,3) show ?thesis
    by (simp add: plainSystem_def)
qed

lemma isMergeCandidate_last:
  "isMergeCandidate lhs rhs \<Longrightarrow> lhs \<noteq> [] \<and> getKind (last lhs) = Kind_AssociatedType"
  by (cases "last lhs") (simp_all add: isMergeCandidate_def)

lemma isMergeCandidate_plain:
  assumes "plainTerm lhs"
  shows "\<not> isMergeCandidate lhs rhs"
proof
  assume m: "isMergeCandidate lhs rhs"
  from isMergeCandidate_last [OF m] have "last lhs \<in> set lhs" "getKind (last lhs) = Kind_AssociatedType"
    by simp_all
  with assms show False by (auto simp: plainTerm_set)
qed

lemma addRule_result:
  assumes a: "addRule graph lhs rhs s = Some (Inr (b, s'))"
  shows "(\<not> b \<and> s' = s) \<or>
         (b \<and> (\<exists>c1 lhs1 c2 rhs1 lhs2 rhs2.
            simplify s lhs = Some (Inr (c1, lhs1)) \<and> simplify s rhs = Some (Inr (c2, rhs1)) \<and>
            ((lhs2 = lhs1 \<and> rhs2 = rhs1) \<or> (lhs2 = rhs1 \<and> rhs2 = lhs1)) \<and>
            Rules s' = Rules s @ [mkRule lhs2 rhs2] \<and>
            MergedAssociatedTypes s' =
              (if isMergeCandidate lhs2 rhs2 then MergedAssociatedTypes s @ [(lhs2, rhs2)]
               else MergedAssociatedTypes s)))"
proof -
  from a obtain c1 lhs1 c2 rhs1 result where
    s1: "simplify s lhs = Some (Inr (c1, lhs1))" and
    s2: "simplify s rhs = Some (Inr (c2, rhs1))" and
    cmp: "Term_compare graph lhs1 rhs1 = Inr result"
    by (auto simp: addRule_def bindM_def split: option.splits sum.splits prod.splits)
  show ?thesis
  proof (cases "result = 0")
    case True
    with a s1 s2 cmp show ?thesis by (simp add: addRule_def bindM_def)
  next
    case nz: False
    show ?thesis
    proof (cases "result < 0")
      case True
      with a s1 s2 cmp nz have
        "b \<and> Rules s' = Rules s @ [mkRule rhs1 lhs1] \<and>
         MergedAssociatedTypes s' =
              (if isMergeCandidate rhs1 lhs1 then MergedAssociatedTypes s @ [(rhs1, lhs1)]
               else MergedAssociatedTypes s)"
        by (auto simp: addRule_def bindM_def Let_def split: sum.splits if_splits)
      with s1 s2 show ?thesis by blast
    next
      case False
      with a s1 s2 cmp nz have
        "b \<and> Rules s' = Rules s @ [mkRule lhs1 rhs1] \<and>
         MergedAssociatedTypes s' =
              (if isMergeCandidate lhs1 rhs1 then MergedAssociatedTypes s @ [(lhs1, rhs1)]
               else MergedAssociatedTypes s)"
        by (auto simp: addRule_def bindM_def Let_def split: sum.splits if_splits)
      with s1 s2 show ?thesis by blast
    qed
  qed
qed

lemma addRule_plain:
  assumes a: "addRule graph lhs rhs s = Some (Inr (b, s'))"
    and ps: "plainSystem s" and pl: "plainTerm lhs" and pr: "plainTerm rhs"
  shows "plainSystem s' \<and> (if b then length (Rules s') = Suc (length (Rules s)) else s' = s)"
proof (cases b)
  case False
  with addRule_result [OF a] ps show ?thesis by simp
next
  case True
  with addRule_result [OF a] obtain c1 lhs1 c2 rhs1 lhs2 rhs2 where
    s1: "simplify s lhs = Some (Inr (c1, lhs1))" and s2: "simplify s rhs = Some (Inr (c2, rhs1))" and
    sw: "(lhs2 = lhs1 \<and> rhs2 = rhs1) \<or> (lhs2 = rhs1 \<and> rhs2 = lhs1)" and
    r: "Rules s' = Rules s @ [mkRule lhs2 rhs2]" and
    m: "MergedAssociatedTypes s' =
              (if isMergeCandidate lhs2 rhs2 then MergedAssociatedTypes s @ [(lhs2, rhs2)]
               else MergedAssociatedTypes s)"
    by blast
  from simplify_plain [OF s1 ps pl] simplify_plain [OF s2 ps pr] sw
  have p: "plainTerm lhs2" "plainTerm rhs2" by auto
  then have "\<not> isMergeCandidate lhs2 rhs2" by (simp add: isMergeCandidate_plain)
  with m ps have "MergedAssociatedTypes s' = []" by (simp add: plainSystem_def)
  moreover from r p ps have "list_all (\<lambda>r. plainTerm (LHS r) \<and> plainTerm (RHS r)) (Rules s')"
    by (simp add: plainSystem_def mkRule_def)
  ultimately show ?thesis using True r by (simp add: plainSystem_def)
qed

lemma completionIteration_result:
  assumes it: "completionIteration graph getDepth n d pair s = Some (Inr it)"
  obtains (skipped) "it = Continue n s"
  | (paired) i j overlap a1 first a2 second b s1 where
      "pair = (i, j)" "i < length (Rules s)" "j < length (Rules s)"
      "checkForOverlap (LHS (Rules s ! i)) (LHS (Rules s ! j)) = Some overlap"
      "Rule_apply (Rules s ! i) overlap = Inr (a1, first)"
      "Rule_apply (Rules s ! j) overlap = Inr (a2, second)"
      "addRule graph first second s = Some (Inr (b, s1))"
      "(if \<not> b then it = Continue n s1
      else if n = 0 then it = Return MaxIterations s1
      else if getDepth (Rules s1 ! length (Rules s)) > d then it = Return MaxDepth s1
      else (\<exists>s3. processMergedAssociatedTypes graph
                    (s1\<lparr>Rules := retireRules [0..<length (Rules s1)] (length (Rules s)) (Rules s1)\<rparr>)
                  = Some (Inr s3) \<and> it = Continue (n - 1) s3))"
proof -
  obtain i j where p: "pair = (i, j)" by (cases pair)
  show ?thesis
  proof (cases "i < length (Rules s) \<and> j < length (Rules s)")
    case False
    with it p show ?thesis by (auto simp: completionIteration_def)
  next
    case inr: True
    show ?thesis
    proof (cases "isDeleted (Rules s ! i) \<or> isDeleted (Rules s ! j)")
      case True
      with it p inr skipped show ?thesis by (auto simp: completionIteration_def Let_def)
    next
      case live: False
      show ?thesis
      proof (cases "checkForOverlap (LHS (Rules s ! i)) (LHS (Rules s ! j))")
        case None
        with it p inr live skipped show ?thesis by (auto simp: completionIteration_def Let_def)
      next
        case (Some overlap)
        from it p inr live Some have body:
          "length overlap > 0 \<and>
           bindM (Some (Rule_apply (Rules s ! i) overlap)) (\<lambda>(applied1, first).
           bindM (Some (Rule_apply (Rules s ! j) overlap)) (\<lambda>(applied2, second).
             bindM (addRule graph first second s) (\<lambda>(added, s1).
               if \<not> added then Some (Inr (Continue n s1))
               else if n = 0 then Some (Inr (Return MaxIterations s1))
               else if getDepth (Rules s1 ! length (Rules s)) > d
                    then Some (Inr (Return MaxDepth s1))
                    else bindM (processMergedAssociatedTypes graph
                           (s1\<lparr>Rules := retireRules [0..<length (Rules s1)] (length (Rules s)) (Rules s1)\<rparr>))
                           (\<lambda>s3. Some (Inr (Continue (n - 1) s3)))))) = Some (Inr it)"
          unfolding completionIteration_def Let_def by (auto split: if_splits)
        then obtain a1 first where ap1: "Rule_apply (Rules s ! i) overlap = Inr (a1, first)"
          by (auto simp: bindM_def split: sum.splits prod.splits)
        from body ap1 obtain a2 second where ap2: "Rule_apply (Rules s ! j) overlap = Inr (a2, second)"
          by (auto simp: bindM_def split: sum.splits prod.splits)
        from body ap1 ap2 obtain b s1 where ad: "addRule graph first second s = Some (Inr (b, s1))"
          by (auto simp: bindM_def split: option.splits sum.splits prod.splits)
        from body ap1 ap2 ad have fin:
          "(if \<not> b then it = Continue n s1
      else if n = 0 then it = Return MaxIterations s1
      else if getDepth (Rules s1 ! length (Rules s)) > d then it = Return MaxDepth s1
      else (\<exists>s3. processMergedAssociatedTypes graph
                    (s1\<lparr>Rules := retireRules [0..<length (Rules s1)] (length (Rules s)) (Rules s1)\<rparr>)
                  = Some (Inr s3) \<and> it = Continue (n - 1) s3))"
          by (auto simp: bindM_def split: option.splits sum.splits if_splits)
        from p inr Some ap1 ap2 ad fin show ?thesis by (intro paired) simp_all
      qed
    qed
  qed
qed

lemma retireRules_length [simp]: "length (retireRules js i rules) = length rules"
  by (induction js i rules rule: retireRules.induct) simp_all

lemma retireRules_plain:
  "list_all (\<lambda>r. plainTerm (LHS r) \<and> plainTerm (RHS r)) rules \<Longrightarrow>
   list_all (\<lambda>r. plainTerm (LHS r) \<and> plainTerm (RHS r)) (retireRules js i rules)"
proof (induction js i rules rule: retireRules.induct)
  case (1 i rules)
  then show ?case by simp
next
  case (2 j js i rules)
  have upd: "list_all (\<lambda>r. plainTerm (LHS r) \<and> plainTerm (RHS r)) (rules[j := markDeleted (rules ! j)])"
  proof (cases "j < length rules")
    case True
    with "2.prems" have "plainTerm (LHS (rules ! j)) \<and> plainTerm (RHS (rules ! j))"
      by (simp add: list_all_length)
    with "2.prems" True show ?thesis
      by (auto simp: list_all_length nth_list_update markDeleted_def)
  next
    case False
    then have "rules[j := markDeleted (rules ! j)] = rules" by (simp add: list_update_beyond)
    with "2.prems" show ?thesis by simp
  qed
  with 2 show ?case by simp
qed

lemma addRule_length:
  assumes "addRule graph lhs rhs s = Some (Inr (b, s'))"
  shows "length (Rules s') = (if b then Suc (length (Rules s)) else length (Rules s))"
  using addRule_result [OF assms] by auto

lemma liftConformanceRules_unchanged:
  "liftConformanceRules graph rules lhs rhs mergedAtom s = Some (Inr s') \<Longrightarrow> s' = s"
proof (induction rules arbitrary: s)
  case Nil
  then show ?case by simp
next
  case (Cons otherRule rest)
  show ?case
  proof (cases "liftConformanceRule otherRule lhs rhs mergedAtom")
    case (Inl e)
    with Cons.prems show ?thesis by simp
  next
    case (Inr r)
    show ?thesis
    proof (cases r)
      case None
      with Inr Cons show ?thesis by simp
    next
      case (Some pair)
      obtain newLHS otherRHS where pair: "pair = (newLHS, otherRHS)" by (cases pair)
      with Inr Some Cons.prems obtain added s1 where
        ad: "addRule graph newLHS otherRHS s = Some (Inr (added, s1))" and
        rest: "\<not> added" "liftConformanceRules graph rest lhs rhs mergedAtom s1 = Some (Inr s')"
        by (auto simp: bindM_def split: option.splits sum.splits prod.splits if_splits)
      from addRule_result [OF ad] rest(1) have "s1 = s" by simp
      with Cons.IH [OF rest(2)] show ?thesis by simp
    qed
  qed
qed

lemma liftConformanceRules_length:
  "liftConformanceRules graph rules lhs rhs mergedAtom s = Some (Inr s') \<Longrightarrow>
   length (Rules s) \<le> length (Rules s')"
  by (drule liftConformanceRules_unchanged) simp

lemma processMerged_loop_length:
  assumes "processMerged_loop graph i s = Some y"
  shows "\<forall>s'. y = Inr s' \<longrightarrow> length (Rules s) \<le> length (Rules s')"
  using assms
proof (induction graph i s y rule: processMerged_loop.raw_induct [rotated 1, consumes 1])
  case (1 loop graph i s y)
  show ?case
  proof (intro allI impI)
    fix s' assume y: "y = Inr s'"
    show "length (Rules s) \<le> length (Rules s')"
    proof (cases "i < length (MergedAssociatedTypes s)")
      case False
      with 1(2) y show ?thesis by simp
    next
      case True
      define lhs where "lhs = fst (MergedAssociatedTypes s ! i)"
      define rhs where "rhs = snd (MergedAssociatedTypes s ! i)"
      from 1(2) True y obtain mergedAtom added1 s1 added2 s2 s3 where
        a1: "addRule graph lhs (lhs[length lhs - 1 := mergedAtom]) s = Some (Inr (added1, s1))" and
        a2: "addRule graph rhs (lhs[length lhs - 1 := mergedAtom]) s1 = Some (Inr (added2, s2))" and
        l: "liftConformanceRules graph (Rules s2) lhs rhs mergedAtom s2 = Some (Inr s3)" and
        r: "loop graph (Suc i) s3 = Some (Inr s')"
        unfolding Let_def lhs_def rhs_def
        by (auto simp: bindM_def split: if_splits option.splits sum.splits prod.splits)
      from 1(1) [OF r] have "length (Rules s3) \<le> length (Rules s')" by simp
      with addRule_length [OF a1] addRule_length [OF a2] liftConformanceRules_length [OF l]
      show ?thesis by (simp split: if_splits)
    qed
  qed
qed

lemma processMergedAssociatedTypes_length:
  "processMergedAssociatedTypes graph s = Some (Inr s') \<Longrightarrow> length (Rules s) \<le> length (Rules s')"
  using processMerged_loop_length
  by (fastforce simp: processMergedAssociatedTypes_def bindM_def
                split: if_splits option.splits sum.splits)

lemma processMergedAssociatedTypes_plain:
  "plainSystem s \<Longrightarrow> processMergedAssociatedTypes graph s = Some (Inr s)"
  by (simp add: processMergedAssociatedTypes_def plainSystem_def)

lemma Rule_apply_plain:
  "Rule_apply rule t = Inr (b, t') \<Longrightarrow> plainTerm t \<Longrightarrow> plainTerm (RHS rule) \<Longrightarrow> plainTerm t'"
  by (auto simp: Rule_apply_def dest: rewriteSubTerm_plain)

lemma checkForOverlap_plain:
  assumes "checkForOverlap A B = Some R" "plainTerm A" "plainTerm B"
  shows "plainTerm R"
  using checkForOverlap_cases [OF assms(1)] assms(2,3) by (auto simp: plainTerm_drop)

lemma finalise_Success:
  "finalise graph s = Some (Inr (r, s')) \<Longrightarrow> r = Success"
  by (auto simp: finalise_def bindM_def split: option.splits sum.splits)

lemma completionIteration_count:
  assumes it: "completionIteration graph getDepth n d pair s = Some (Inr it)"
  shows "case it of
           Continue n' s' \<Rightarrow>
             (n' = n \<and> length (Rules s) \<le> length (Rules s')) \<or>
             (n \<noteq> 0 \<and> n' = n - 1 \<and> Suc (length (Rules s)) \<le> length (Rules s'))
         | Return r s' \<Rightarrow>
             r \<noteq> Success \<and> (r = MaxIterations \<longrightarrow> n = 0 \<and> length (Rules s') = Suc (length (Rules s)))"
  using it
proof (cases rule: completionIteration_result)
  case skipped
  then show ?thesis by simp
next
  case (paired i j overlap a1 first a2 second b s1)
  from addRule_length [OF paired(7)]
  have len: "length (Rules s1) = (if b then Suc (length (Rules s)) else length (Rules s))" by simp
  show ?thesis
  proof (cases "b \<and> n \<noteq> 0 \<and> \<not> getDepth (Rules s1 ! length (Rules s)) > d")
    case False
    with paired(8) len show ?thesis by (auto split: if_splits)
  next
    case True
    with paired(8) obtain s3 where
      pm: "processMergedAssociatedTypes graph
             (s1\<lparr>Rules := retireRules [0..<length (Rules s1)] (length (Rules s)) (Rules s1)\<rparr>)
           = Some (Inr s3)" and it3: "it = Continue (n - 1) s3"
      by auto
    from processMergedAssociatedTypes_length [OF pm] len True
    have "Suc (length (Rules s)) \<le> length (Rules s3)" by simp
    with it3 True show ?thesis by simp
  qed
qed

lemma completionIteration_plain:
  assumes it: "completionIteration graph getDepth n d pair s = Some (Inr it)" and ps: "plainSystem s"
  shows "case it of
           Continue n' s' \<Rightarrow>
             plainSystem s' \<and>
             ((n' = n \<and> length (Rules s') = length (Rules s)) \<or>
              (n \<noteq> 0 \<and> n' = n - 1 \<and> length (Rules s') = Suc (length (Rules s))))
         | Return r s' \<Rightarrow> True"
  using it
proof (cases rule: completionIteration_result)
  case skipped
  with ps show ?thesis by simp
next
  case (paired i j overlap a1 first a2 second b s1)
  from ps paired(2,3) have pi: "plainTerm (LHS (Rules s ! i))" "plainTerm (RHS (Rules s ! i))"
    and pj: "plainTerm (LHS (Rules s ! j))" "plainTerm (RHS (Rules s ! j))"
    by (simp_all add: plainSystem_def list_all_length)
  from checkForOverlap_plain [OF paired(4) pi(1) pj(1)] have po: "plainTerm overlap" .
  from Rule_apply_plain [OF paired(5) po pi(2)] Rule_apply_plain [OF paired(6) po pj(2)]
  have pf: "plainTerm first" "plainTerm second" by simp_all
  from addRule_plain [OF paired(7) ps pf]
  have ps1: "plainSystem s1" and
    len: "if b then length (Rules s1) = Suc (length (Rules s)) else s1 = s"
    by simp_all
  show ?thesis
  proof (cases "b \<and> n \<noteq> 0 \<and> \<not> getDepth (Rules s1 ! length (Rules s)) > d")
    case False
    with paired(8) len ps1 show ?thesis by (auto split: if_splits)
  next
    case True
    define s2 where "s2 = s1\<lparr>Rules := retireRules [0..<length (Rules s1)] (length (Rules s)) (Rules s1)\<rparr>"
    from ps1 have ps2: "plainSystem s2"
      by (simp add: s2_def plainSystem_def retireRules_plain)
    from True paired(8) obtain s3 where
      pm: "processMergedAssociatedTypes graph s2 = Some (Inr s3)" and it3: "it = Continue (n - 1) s3"
      by (auto simp: s2_def)
    from pm processMergedAssociatedTypes_plain [OF ps2] have "s3 = s2" by simp
    with ps2 it3 True len show ?thesis by (simp add: s2_def)
  qed
qed

text \<open>
  Whenever the procedure returns \<open>MaxIterations\<close>, the vector has grown by at least
  \<open>n + 1\<close> rules, and by exactly \<open>n + 1\<close> from a system without associated-type atoms and
  merge candidates.
\<close>

lemma completion_loop_count:
  assumes "completion_loop graph getDepth n d s = Some y"
  shows "\<forall>s'. y = Inr (MaxIterations, s') \<longrightarrow>
           length (Rules s) + n + 1 \<le> length (Rules s') \<and>
           (plainSystem s \<longrightarrow> length (Rules s') = length (Rules s) + n + 1)"
  using assms
proof (induction graph getDepth n d s y rule: completion_loop.raw_induct [rotated 1, consumes 1])
  case (1 loop graph getDepth n d s y)
  show ?case
  proof (intro allI impI)
    fix s' assume y: "y = Inr (MaxIterations, s')"
    show "length (Rules s) + n + 1 \<le> length (Rules s') \<and>
           (plainSystem s \<longrightarrow> length (Rules s') = length (Rules s) + n + 1)"
    proof (cases "Worklist s")
      case Nil
      with 1(2) y have "finalise graph s = Some (Inr (MaxIterations, s'))" by simp
      from finalise_Success [OF this] show ?thesis by simp
    next
      case (Cons pair rest)
      define s0 where "s0 = s\<lparr>Worklist := rest\<rparr>"
      have r0: "Rules s0 = Rules s" and p0: "plainSystem s0 = plainSystem s"
        by (simp_all add: s0_def plainSystem_def)
      from 1(2) y Cons obtain it where
        it: "completionIteration graph getDepth n d pair s0 = Some (Inr it)" and
        k: "(case it of Continue n' s1 \<Rightarrow> loop graph getDepth n' d s1
             | Return result s1 \<Rightarrow> Some (Inr (result, s1))) = Some (Inr (MaxIterations, s'))"
        by (auto simp: bindM_def s0_def split: option.splits sum.splits)
      show ?thesis
      proof (cases it)
        case (Continue n' s1)
        with k have l: "loop graph getDepth n' d s1 = Some y" by (simp add: y)
        from 1(1) [OF l] y
        have ih: "length (Rules s1) + n' + 1 \<le> length (Rules s')"
          "plainSystem s1 \<longrightarrow> length (Rules s') = length (Rules s1) + n' + 1"
          by simp_all
        from completionIteration_count [OF it] Continue r0
        have c: "(n' = n \<and> length (Rules s) \<le> length (Rules s1)) \<or>
             (n \<noteq> 0 \<and> n' = n - 1 \<and> Suc (length (Rules s)) \<le> length (Rules s1))"
          by simp
        with ih(1) have ge: "length (Rules s) + n + 1 \<le> length (Rules s')" by auto
        have "plainSystem s \<longrightarrow> length (Rules s') = length (Rules s) + n + 1"
        proof
          assume "plainSystem s"
          with p0 have ps: "plainSystem s0" by simp
          from completionIteration_plain [OF it ps] Continue r0
          have "plainSystem s1" and
            "(n' = n \<and> length (Rules s1) = length (Rules s)) \<or>
              (n \<noteq> 0 \<and> n' = n - 1 \<and> length (Rules s1) = Suc (length (Rules s)))"
            by simp_all
          with ih(2) show "length (Rules s') = length (Rules s) + n + 1" by auto
        qed
        with ge show ?thesis by simp
      next
        case (Return r s1)
        with k have "r = MaxIterations" "s1 = s'" by simp_all
        with completionIteration_count [OF it] Return r0 show ?thesis by simp
      qed
    qed
  qed
qed

section \<open>The budget, the depth and the finalisation of the completion\<close>


text \<open>
  The runs of the loop body with two budgets. The budget is read in one place, after
  \<^verbatim>\<open>addRule\<close> has returned true: a run of the body either stops for every budget, or
  leaves the rules as they are for every budget, or appends a rule and then tests the
  budget.
\<close>

lemma bindM_stops:
  "\<forall>x. r \<noteq> Some (Inr x) \<Longrightarrow> bindM r f \<noteq> Some (Inr y)"
  by (cases r) (auto simp: bindM_def split: sum.splits)

lemma completionIteration_shape:
  obtains (stops) r where
      "\<And>n. completionIteration graph getDepth n d pair s = r" "\<forall>it. r \<noteq> Some (Inr it)"
  | (skipped) "\<And>n. completionIteration graph getDepth n d pair s = Some (Inr (Continue n s))"
  | (paired) first second b s1 where
      "addRule graph first second s = Some (Inr (b, s1))"
      "\<And>n. completionIteration graph getDepth n d pair s =
         (if \<not> b then Some (Inr (Continue n s1))
          else if n = 0 then Some (Inr (Return MaxIterations s1))
          else if getDepth (Rules s1 ! length (Rules s)) > d then Some (Inr (Return MaxDepth s1))
          else bindM (processMergedAssociatedTypes graph
                 (s1\<lparr>Rules := retireRules [0..<length (Rules s1)] (length (Rules s)) (Rules s1)\<rparr>))
                 (\<lambda>s3. Some (Inr (Continue (n - 1) s3))))"
proof (cases "fst pair < length (Rules s) \<and> snd pair < length (Rules s)")
  case False
  then have "\<And>n. completionIteration graph getDepth n d pair s = Some (Inl OutOfRange)"
    by (simp add: completionIteration_def)
  then show ?thesis by (rule stops) simp
next
  case inr: True
  show ?thesis
  proof (cases "isDeleted (Rules s ! fst pair) \<or> isDeleted (Rules s ! snd pair)")
    case True
    with inr have "\<And>n. completionIteration graph getDepth n d pair s = Some (Inr (Continue n s))"
      by (simp add: completionIteration_def Let_def)
    then show ?thesis by (rule skipped)
  next
    case live: False
    show ?thesis
    proof (cases "checkForOverlap (LHS (Rules s ! fst pair)) (LHS (Rules s ! snd pair))")
      case None
      with inr live have "\<And>n. completionIteration graph getDepth n d pair s = Some (Inr (Continue n s))"
        by (simp add: completionIteration_def Let_def)
      then show ?thesis by (rule skipped)
    next
      case (Some overlap)
      show ?thesis
      proof (cases "overlap = []")
        case True
        with inr live Some
        have "\<And>n. completionIteration graph getDepth n d pair s = Some (Inl AssertionFailure)"
          by (simp add: completionIteration_def Let_def)
        then show ?thesis by (rule stops) simp
      next
        case ne: False
        show ?thesis
        proof (cases "Rule_apply (Rules s ! fst pair) overlap")
          case (Inl e)
          with inr live Some ne
          have "\<And>n. completionIteration graph getDepth n d pair s = Some (Inl e)"
            by (simp add: completionIteration_def Let_def bindM_def)
          then show ?thesis by (rule stops) simp
        next
          case r1: (Inr p1)
          obtain a1 first where p1: "p1 = (a1, first)" by (cases p1)
          show ?thesis
          proof (cases "Rule_apply (Rules s ! snd pair) overlap")
            case (Inl e)
            with inr live Some ne r1 p1
            have "\<And>n. completionIteration graph getDepth n d pair s = Some (Inl e)"
              by (simp add: completionIteration_def Let_def bindM_def)
            then show ?thesis by (rule stops) simp
          next
            case r2: (Inr p2)
            obtain a2 second where p2: "p2 = (a2, second)" by (cases p2)
            from inr live Some ne r1 p1 r2 p2 have body:
              "\<And>n. completionIteration graph getDepth n d pair s =
                 bindM (addRule graph first second s) (\<lambda>(added, s1).
                   if \<not> added then Some (Inr (Continue n s1))
                   else if n = 0 then Some (Inr (Return MaxIterations s1))
                   else if getDepth (Rules s1 ! length (Rules s)) > d
                        then Some (Inr (Return MaxDepth s1))
                        else bindM (processMergedAssociatedTypes graph
                               (s1\<lparr>Rules := retireRules [0..<length (Rules s1)] (length (Rules s)) (Rules s1)\<rparr>))
                               (\<lambda>s3. Some (Inr (Continue (n - 1) s3))))"
              unfolding completionIteration_def Let_def by (simp add: bindM_def)
            show ?thesis
            proof (cases "\<exists>b s1. addRule graph first second s = Some (Inr (b, s1))")
              case False
              then have n: "\<forall>x. addRule graph first second s \<noteq> Some (Inr x)" by auto
              define r where "r = (case addRule graph first second s of
                   None \<Rightarrow> None | Some (Inl e) \<Rightarrow> Some (Inl e) | Some (Inr x) \<Rightarrow> (None :: (error + Iteration) option))"
              from n have "\<And>n. completionIteration graph getDepth n d pair s = r"
                unfolding body r_def by (auto simp: bindM_def split: option.splits sum.splits)
              moreover from n have "\<forall>it. r \<noteq> Some (Inr it)"
                by (auto simp: r_def split: option.splits sum.splits)
              ultimately show ?thesis by (rule stops)
            next
              case True
              then obtain b s1 where ad: "addRule graph first second s = Some (Inr (b, s1))" by blast
              show ?thesis
                by (rule paired [OF ad]) (simp add: body ad bindM_def)
            qed
          qed
        qed
      qed
    qed
  qed
qed


text \<open>
  A loop that has used more than \<open>n\<close> of a budget \<open>m\<close> after \<open>k\<close> runs of its body returns
  \<open>MaxIterations\<close> when its budget is \<open>n\<close>: the two loops go through the same systems
  until the second has no budget left and appends one more rule.
\<close>

lemma completion_budget_exhausted:
  "completion_steps k graph getDepth m d s = Some (Inr (Continue m' s1)) \<Longrightarrow> n + m' < m \<Longrightarrow>
   \<exists>s'. completion_loop graph getDepth n d s = Some (Inr (MaxIterations, s')) \<and>
        (plainSystem s \<longrightarrow> length (Rules s') = length (Rules s) + n + 1)"
proof (induction k arbitrary: s m n)
  case 0
  then show ?case by simp
next
  case (Suc k)
  show ?case
  proof (cases "Worklist s")
    case Nil
    with Suc.prems show ?thesis by simp
  next
    case (Cons pair rest)
    define s0 where "s0 = s\<lparr>Worklist := rest\<rparr>"
    have r0: "Rules s0 = Rules s" and p0: "plainSystem s0 = plainSystem s"
      by (simp_all add: s0_def plainSystem_def)
    from Suc.prems(1) Cons have steps:
      "bindM (completionIteration graph getDepth m d pair s0) (\<lambda>it.
         case it of
           Continue m1 s2 \<Rightarrow> completion_steps k graph getDepth m1 d s2
         | Return result s2 \<Rightarrow> Some (Inr (Return result s2))) = Some (Inr (Continue m' s1))"
      by (simp add: s0_def)
    have loop: "\<And>n. completion_loop graph getDepth n d s =
      bindM (completionIteration graph getDepth n d pair s0) (\<lambda>it.
         case it of
           Continue n1 s2 \<Rightarrow> completion_loop graph getDepth n1 d s2
         | Return result s2 \<Rightarrow> Some (Inr (result, s2)))"
      using Cons by (subst completion_loop.simps) (simp add: s0_def)
    have continue: "\<exists>s'. completion_loop graph getDepth n d s = Some (Inr (MaxIterations, s')) \<and>
        (plainSystem s \<longrightarrow> length (Rules s') = length (Rules s) + n + 1)"
      if it: "\<And>n. completionIteration graph getDepth n d pair s0 = Some (Inr (Continue n s2))"
        and r2: "Rules s2 = Rules s0" and p2: "plainSystem s2 = plainSystem s0" for s2
    proof -
      from steps it have "completion_steps k graph getDepth m d s2 = Some (Inr (Continue m' s1))"
        by (simp add: bindM_def)
      from Suc.IH [OF this Suc.prems(2)] obtain s' where
        "completion_loop graph getDepth n d s2 = Some (Inr (MaxIterations, s'))"
        "plainSystem s2 \<longrightarrow> length (Rules s') = length (Rules s2) + n + 1"
        by blast
      with it r2 p2 r0 p0 show ?thesis by (simp add: loop bindM_def)
    qed
    show ?thesis
    proof (cases rule: completionIteration_shape [of graph getDepth d pair s0])
      case (stops r)
      from bindM_stops [OF stops(2)] steps stops(1) show ?thesis by metis
    next
      case skipped
      then show ?thesis by (intro continue) simp_all
    next
      case (paired first second b sa)
      show ?thesis
      proof (cases b)
        case False
        with addRule_result [OF paired(1)] have "sa = s0" by simp
        with False paired(2) show ?thesis by (intro continue) simp_all
      next
        case True
        from addRule_length [OF paired(1)] True
        have len: "length (Rules sa) = Suc (length (Rules s))" by (simp add: r0)
        have m0: "m \<noteq> 0"
        proof
          assume "m = 0"
          with paired(2) [of m] True
          have "completionIteration graph getDepth m d pair s0 = Some (Inr (Return MaxIterations sa))"
            by simp
          with steps show False by (simp add: bindM_def)
        qed
        have dp: "\<not> getDepth (Rules sa ! length (Rules s0)) > d"
        proof
          assume "getDepth (Rules sa ! length (Rules s0)) > d"
          with paired(2) [of m] True m0
          have "completionIteration graph getDepth m d pair s0 = Some (Inr (Return MaxDepth sa))"
            by simp
          with steps show False by (simp add: bindM_def)
        qed
        from paired(2) [of m] True m0 dp
        have itm: "completionIteration graph getDepth m d pair s0 =
          bindM (processMergedAssociatedTypes graph
                 (sa\<lparr>Rules := retireRules [0..<length (Rules sa)] (length (Rules s0)) (Rules sa)\<rparr>))
                 (\<lambda>s3. Some (Inr (Continue (m - 1) s3)))"
          by simp
        define s2 where "s2 = sa\<lparr>Rules := retireRules [0..<length (Rules sa)] (length (Rules s0)) (Rules sa)\<rparr>"
        from steps obtain s3 where
          pm: "processMergedAssociatedTypes graph s2 = Some (Inr s3)" and
          st: "completion_steps k graph getDepth (m - 1) d s3 = Some (Inr (Continue m' s1))"
          unfolding itm s2_def [symmetric]
          by (auto simp: bindM_def split: option.splits sum.splits)
        show ?thesis
        proof (cases "n = 0")
          case True
          with paired(2) [of n] \<open>b\<close>
          have "completionIteration graph getDepth n d pair s0 = Some (Inr (Return MaxIterations sa))"
            by simp
          with len True show ?thesis by (simp add: loop bindM_def)
        next
          case False
          with paired(2) [of n] \<open>b\<close> dp pm
          have it: "completionIteration graph getDepth n d pair s0 = Some (Inr (Continue (n - 1) s3))"
            by (simp add: bindM_def s2_def)
          from False Suc.prems(2) m0 have "(n - 1) + m' < m - 1" by simp
          from Suc.IH [OF st this] obtain s' where
            l: "completion_loop graph getDepth (n - 1) d s3 = Some (Inr (MaxIterations, s'))" and
            c: "plainSystem s3 \<longrightarrow> length (Rules s') = length (Rules s3) + (n - 1) + 1"
            by blast
          have "plainSystem s \<longrightarrow> length (Rules s') = length (Rules s) + n + 1"
          proof
            assume "plainSystem s"
            with p0 have "plainSystem s0" by simp
            from completionIteration_plain [OF it this] False r0
            have "plainSystem s3" "length (Rules s3) = Suc (length (Rules s))" by auto
            with c False show "length (Rules s') = length (Rules s) + n + 1" by simp
          qed
          with l it show ?thesis by (simp add: loop bindM_def)
        qed
      qed
    qed
  qed
qed





text \<open>
  With a merge candidate in the queue the vector can grow by more: between two critical
  pairs \<^verbatim>\<open>processMergedAssociatedTypes\<close> appends rules of its own (lines 393 and 394).
  From \<open>mergingRules\<close> and with \<open>maxIterations = 1\<close> the procedure returns
  \<open>MaxIterations\<close> with three new rules, the second of which comes from the merge.
\<close>

lemma completion_merge_rule_example:
  "initialize mergingRules exampleGraph emptySystem = Some (Inr mergingSystem)
   \<and> length (Rules mergingSystem) = 5
   \<and> \<not> plainSystem mergingSystem
   \<and> map_option (map_sum id (\<lambda>(r, s). (r, drop 5 (Rules s))))
       (computeConfluentCompletion exampleGraph (\<lambda>r. 0) 1 100 mergingSystem)
       = Some (Inr (MaxIterations,
           [mkRule [forName ''v'', forAssociatedType [2] ''T''] [forName ''p'', forName ''k''],
            mkRule [forName ''u'', forName ''v'', forAssociatedType [1] ''T'']
                   [forName ''u'', forName ''p'', forName ''k''],
            mkRule [forName ''z'', forName ''x'', forName ''y'']
                   [forName ''y'', forName ''z'', forName ''x'']]))"
  by code_simp

subsection \<open>The chain of critical pairs has no end\<close>

text \<open>
  From \<open>chainSystem\<close> the loop appends one rule of the chain after the other. A pair of
  the worklist whose second rule is not \<open>b.a \<rightarrow> a.b\<close> has no overlap; the pair of the last
  rule of the chain and \<open>b.a \<rightarrow> a.b\<close> has the overlap \<open>c.a\<^sup>j.b.a\<close>, whose two reducts are
  the next rule, which no rule of the vector reduces and which retires none. So with
  every budget \<open>n\<close>, and a depth limit that no rule exceeds, \<open>computeConfluentCompletion\<close>
  returns \<open>MaxIterations\<close> on \<open>chainSystem\<close> with \<open>n + 1\<close> new rules.
\<close>

lemma chainSystem_chainState: "chainSystem = chainState 0 [(1, 0), (0, 1)]"
  by (simp add: chainSystem_def chainState_def chainVector_def chainLHS_def chainRHS_def)

lemma chainLHS_length [simp]: "length (chainLHS i) = i + 2"
  by (simp add: chainLHS_def)

lemma chainRHS_length [simp]: "length (chainRHS i) = i + 2"
  by (simp add: chainRHS_def)

lemma chainLHS_nth:
  "p < i + 2 \<Longrightarrow>
   chainLHS i ! p = (if p = 0 then forName ''c'' else if p < Suc i then forName ''a'' else forName ''b'')"
  by (cases p) (auto simp: chainLHS_def nth_append)

lemma chainRHS_nth:
  "p < i + 2 \<Longrightarrow>
   chainRHS i ! p = (if p = 0 then forName ''b'' else if p = 1 then forName ''c'' else forName ''a'')"
  by (cases p) (auto simp: chainRHS_def nth_Cons split: nat.splits)

lemma sublist_nth:
  assumes "sublist ys t"
  shows "\<exists>p. p + length ys \<le> length t \<and> (\<forall>k < length ys. t ! (p + k) = ys ! k)"
proof -
  from assms obtain ps ss where "t = ps @ ys @ ss" by (auto simp: sublist_def)
  then have "length ps + length ys \<le> length t \<and> (\<forall>k < length ys. t ! (length ps + k) = ys ! k)"
    by (simp add: nth_append)
  then show ?thesis by blast
qed

lemma std_search_none:
  "\<not> sublist ys t \<Longrightarrow> std_search t ys = length t"
proof (induction t)
  case Nil
  then show ?case by simp
next
  case (Cons x xs)
  from Cons.prems have "\<not> prefix ys (x # xs)" by auto
  then have n: "take (length ys) (x # xs) \<noteq> ys" by (metis take_is_prefix)
  from Cons.prems have "\<not> sublist ys xs" by (simp add: sublist_Cons_right)
  with Cons.IH n show ?case by simp
qed

lemma findSubTerm_none:
  "\<not> sublist other t \<Longrightarrow> findSubTerm t other = length t"
  by (simp add: findSubTerm_def std_search_none)

lemma std_search_first:
  "ys \<noteq> [] \<Longrightarrow> \<forall>p < n. t ! p \<noteq> hd ys \<Longrightarrow> n < length t \<Longrightarrow>
   take (length ys) (drop n t) = ys \<Longrightarrow> std_search t ys = n"
proof (induction t arbitrary: n)
  case Nil
  then show ?case by simp
next
  case (Cons x xs)
  show ?case
  proof (cases n)
    case 0
    with Cons.prems show ?thesis by simp
  next
    case (Suc n')
    with Cons.prems have "x \<noteq> hd ys" by auto
    with Cons.prems(1) have "take (length ys) (x # xs) \<noteq> ys" by (cases ys) auto
    moreover from Cons.prems Suc have "std_search xs ys = n'"
      by (intro Cons.IH) auto
    ultimately show ?thesis using Suc by simp
  qed
qed

lemma no_swap_in_chainLHS: "\<not> sublist [forName ''b'', forName ''a''] (chainLHS i)"
proof
  assume "sublist [forName ''b'', forName ''a''] (chainLHS i)"
  from sublist_nth [OF this] obtain p where
    p: "p + 2 \<le> i + 2" "chainLHS i ! (p + 0) = forName ''b''" "chainLHS i ! (p + 1) = forName ''a''"
    by (auto simp: numeral_2_eq_2 less_Suc_eq)
  then show False by (simp add: chainLHS_nth split: if_splits)
qed

lemma no_swap_in_chainRHS: "\<not> sublist [forName ''b'', forName ''a''] (chainRHS i)"
proof
  assume "sublist [forName ''b'', forName ''a''] (chainRHS i)"
  from sublist_nth [OF this] obtain p where
    p: "p + 2 \<le> i + 2" "chainRHS i ! (p + 0) = forName ''b''" "chainRHS i ! (p + 1) = forName ''a''"
    by (auto simp: numeral_2_eq_2 less_Suc_eq)
  then show False by (simp add: chainRHS_nth split: if_splits)
qed

lemma no_chainLHS_in_chainRHS: "\<not> sublist (chainLHS x) (chainRHS i)"
proof
  assume "sublist (chainLHS x) (chainRHS i)"
  from sublist_nth [OF this] obtain p where
    p: "p + (x + 2) \<le> i + 2" "\<forall>k < x + 2. chainRHS i ! (p + k) = chainLHS x ! k"
    by auto
  from p(2) [rule_format, of 0] p(1) have "p = 1"
    by (simp add: chainLHS_nth chainRHS_nth split: if_splits)
  with p(2) [rule_format, of "Suc x"] p(1) show False
    by (simp add: chainLHS_nth chainRHS_nth split: if_splits)
qed

lemma no_chainLHS_in_chainLHS: "x \<noteq> i \<Longrightarrow> \<not> sublist (chainLHS x) (chainLHS i)"
proof
  assume ne: "x \<noteq> i" and "sublist (chainLHS x) (chainLHS i)"
  from sublist_nth [OF this(2)] obtain p where
    p: "p + (x + 2) \<le> i + 2" "\<forall>k < x + 2. chainLHS i ! (p + k) = chainLHS x ! k"
    by auto
  from p(2) [rule_format, of 0] p(1) have "p = 0"
    by (simp add: chainLHS_nth split: if_splits)
  with p(2) [rule_format, of "Suc x"] p(1) ne show False
    by (simp add: chainLHS_nth split: if_splits)
qed


lemma chainVector_length [simp]: "length (chainVector j) = j + 2"
  by (simp add: chainVector_def)

lemma chainVector_0: "chainVector j ! 0 = mkRule [forName ''b'', forName ''a''] [forName ''a'', forName ''b'']"
  by (simp add: chainVector_def)

lemma chainVector_Suc: "i \<le> j \<Longrightarrow> chainVector j ! Suc i = mkRule (chainLHS i) (chainRHS i)"
proof -
  assume "i \<le> j"
  then have "map (\<lambda>i. mkRule (chainLHS i) (chainRHS i)) [0..<Suc j] ! i = mkRule (chainLHS ([0..<Suc j] ! i)) (chainRHS ([0..<Suc j] ! i))"
    by (intro nth_map) simp
  also from \<open>i \<le> j\<close> have "[0..<Suc j] ! i = i" by (metis add_0 le_imp_less_Suc nth_upt)
  finally show ?thesis by (simp add: chainVector_def)
qed

lemma chainVector_extend:
  "chainVector j @ [mkRule (chainLHS (Suc j)) (chainRHS (Suc j))] = chainVector (Suc j)"
  by (simp add: chainVector_def)

lemma chainVector_set:
  "r \<in> set (chainVector j) \<Longrightarrow>
   r = mkRule [forName ''b'', forName ''a''] [forName ''a'', forName ''b''] \<or>
   (\<exists>x \<le> j. r = mkRule (chainLHS x) (chainRHS x))"
proof -
  assume "r \<in> set (chainVector j)"
  then have "r = mkRule [forName ''b'', forName ''a''] [forName ''a'', forName ''b''] \<or>
    r \<in> (\<lambda>i. mkRule (chainLHS i) (chainRHS i)) ` {0..<Suc j}"
    by (simp add: chainVector_def del: upt_Suc)
  then show ?thesis by (auto simp: less_Suc_eq_le)
qed

lemma chainVector_live: "i < j + 2 \<Longrightarrow> \<not> isDeleted (chainVector j ! i)"
  by (cases i) (simp_all add: chainVector_0 chainVector_Suc isDeleted_def mkRule_def)

lemma simplify_pass_none:
  "\<forall>r \<in> set rules. findSubTerm t (LHS r) = length t \<Longrightarrow> simplify_pass rules t b = Inr (t, b)"
  by (induction rules) (simp_all add: Rule_apply_def rewriteSubTerm_def)

lemma simplify_none:
  "\<forall>r \<in> set (Rules s). findSubTerm t (LHS r) = length t \<Longrightarrow> simplify s t = Some (Inr (False, t))"
  by (simp add: simplify_def simplify_loop.simps [of "Rules s" t False] simplify_pass_none)

lemma simplify_chainLHS:
  "simplify (chainState j W) (chainLHS (Suc j)) = Some (Inr (False, chainLHS (Suc j)))"
proof (rule simplify_none, rule ballI)
  fix r assume "r \<in> set (Rules (chainState j W))"
  then have "r \<in> set (chainVector j)" by (simp add: chainState_def)
  from chainVector_set [OF this]
  have "\<not> sublist (LHS r) (chainLHS (Suc j))"
    using no_swap_in_chainLHS [of "Suc j"] no_chainLHS_in_chainLHS [of _ "Suc j"]
    by (auto simp: mkRule_def)
  then show "findSubTerm (chainLHS (Suc j)) (LHS r) = length (chainLHS (Suc j))"
    by (rule findSubTerm_none)
qed

lemma simplify_chainRHS:
  "simplify (chainState j W) (chainRHS (Suc j)) = Some (Inr (False, chainRHS (Suc j)))"
proof (rule simplify_none, rule ballI)
  fix r assume "r \<in> set (Rules (chainState j W))"
  then have "r \<in> set (chainVector j)" by (simp add: chainState_def)
  from chainVector_set [OF this]
  have "\<not> sublist (LHS r) (chainRHS (Suc j))"
    using no_swap_in_chainRHS [of "Suc j"] no_chainLHS_in_chainRHS [of _ "Suc j"]
    by (auto simp: mkRule_def)
  then show "findSubTerm (chainRHS (Suc j)) (LHS r) = length (chainRHS (Suc j))"
    by (rule findSubTerm_none)
qed

lemma Term_compare_chain:
  "Term_compare graph (chainRHS i) (chainLHS i) = Inr (- 1)"
  "Term_compare graph (chainLHS i) (chainRHS i) = Inr 1"
  by (simp_all add: Term_compare_def chainLHS_def chainRHS_def)

lemma isMergeCandidate_chain: "\<not> isMergeCandidate (chainLHS i) (chainRHS i)"
  by (simp add: isMergeCandidate_def chainLHS_def)

lemma addRule_chain:
  "addRule graph (chainRHS (Suc j)) (chainLHS (Suc j)) (chainState j W) =
   Some (Inr (True, chainState (Suc j) (W @ newWorklistPairs (Suc (Suc j)) (Suc (Suc (Suc j))))))"
  by (simp add: addRule_def bindM_def simplify_chainLHS simplify_chainRHS Term_compare_chain
        isMergeCandidate_chain Let_def)
     (simp add: chainState_def chainVector_extend)


lemma completionIteration_skip:
  assumes "fst pair < length (Rules s)" "snd pair < length (Rules s)"
    "\<not> isDeleted (Rules s ! fst pair)" "\<not> isDeleted (Rules s ! snd pair)"
    "checkForOverlap (LHS (Rules s ! fst pair)) (LHS (Rules s ! snd pair)) = None"
  shows "completionIteration graph getDepth n d pair s = Some (Inr (Continue n s))"
  using assms by (simp add: completionIteration_def)

lemma completionIteration_paired:
  assumes "fst pair < length (Rules s)" "snd pair < length (Rules s)"
    "\<not> isDeleted (Rules s ! fst pair)" "\<not> isDeleted (Rules s ! snd pair)"
    "checkForOverlap (LHS (Rules s ! fst pair)) (LHS (Rules s ! snd pair)) = Some overlap"
    "overlap \<noteq> []"
    "Rule_apply (Rules s ! fst pair) overlap = Inr (a1, first)"
    "Rule_apply (Rules s ! snd pair) overlap = Inr (a2, second)"
    "addRule graph first second s = Some (Inr (True, s1))"
  shows "completionIteration graph getDepth n d pair s =
         (if n = 0 then Some (Inr (Return MaxIterations s1))
          else if getDepth (Rules s1 ! length (Rules s)) > d then Some (Inr (Return MaxDepth s1))
          else bindM (processMergedAssociatedTypes graph
                 (s1\<lparr>Rules := retireRules [0..<length (Rules s1)] (length (Rules s)) (Rules s1)\<rparr>))
                 (\<lambda>s3. Some (Inr (Continue (n - 1) s3))))"
  using assms unfolding completionIteration_def Let_def by (simp add: bindM_def)

lemma chainLHS_no_overlap_swap:
  "checkForOverlap [forName ''b'', forName ''a''] (chainLHS x) = None"
proof (cases "checkForOverlap [forName ''b'', forName ''a''] (chainLHS x)")
  case None
  then show ?thesis .
next
  case (Some R)
  from checkForOverlap_cases [OF Some] show ?thesis
  proof (elim disjE conjE exE)
    assume "sublist (chainLHS x) [forName ''b'', forName ''a'']"
    from sublist_nth [OF this] obtain p where
      "p + (x + 2) \<le> 2" "\<forall>k < x + 2. [forName ''b'', forName ''a''] ! (p + k) = chainLHS x ! k"
      by auto
    from this(1) this(2) [rule_format, of 0] show ?thesis by (simp add: chainLHS_nth)
  next
    fix j assume j: "j < length [forName ''b'', forName ''a'']"
      "drop j [forName ''b'', forName ''a''] =
       take (length [forName ''b'', forName ''a''] - j) (chainLHS x)"
    then have "j = 0 \<or> j = 1" by auto
    with j(2) show ?thesis by (auto simp: chainLHS_def)
  qed
qed

lemma chainLHS_no_overlap:
  assumes "x \<noteq> y"
  shows "checkForOverlap (chainLHS y) (chainLHS x) = None"
proof (cases "checkForOverlap (chainLHS y) (chainLHS x)")
  case None
  then show ?thesis .
next
  case (Some R)
  from checkForOverlap_cases [OF Some] show ?thesis
  proof (elim disjE conjE exE)
    assume "sublist (chainLHS x) (chainLHS y)"
    with no_chainLHS_in_chainLHS [OF assms] show ?thesis by simp
  next
    fix p assume p: "p < length (chainLHS y)"
      "drop p (chainLHS y) = take (length (chainLHS y) - p) (chainLHS x)"
    from p(1) have "hd (drop p (chainLHS y)) = chainLHS y ! p" by (simp add: hd_drop_conv_nth)
    moreover from p(1) have "hd (take (length (chainLHS y) - p) (chainLHS x)) = forName ''c''"
      by (simp add: chainLHS_def)
    ultimately have "chainLHS y ! p = forName ''c''" using p(2) by simp
    with p(1) have p0: "p = 0" by (simp add: chainLHS_nth split: if_splits)
    with p(2) have eq: "chainLHS y = take (y + 2) (chainLHS x)" by simp
    then have "length (chainLHS y) = length (take (y + 2) (chainLHS x))" by simp
    then have le: "y \<le> x" by simp
    from eq have "chainLHS y ! Suc y = take (y + 2) (chainLHS x) ! Suc y" by simp
    with le have "chainLHS y ! Suc y = chainLHS x ! Suc y" by simp
    with le assms show ?thesis by (simp add: chainLHS_nth split: if_splits)
  qed
qed

lemma chainLHS_overlap_swap:
  "checkForOverlap (chainLHS j) [forName ''b'', forName ''a''] = Some (chainLHS j @ [forName ''a''])"
proof -
  have "overlap_contained (chainLHS j) [forName ''b'', forName ''a''] 0 \<noteq> None"
    using overlap_contained_None take_drop_sublist no_swap_in_chainLHS by blast
  then obtain f where f: "overlap_contained (chainLHS j) [forName ''b'', forName ''a''] 0 = Some f"
    by blast
  from overlap_contained_Some [OF this] have "f = Suc j" by simp
  moreover have "overlap_suffix (chainLHS j) [forName ''b'', forName ''a''] (Suc j)
     = Some (chainLHS j @ [forName ''a''])"
    by (simp add: overlap_suffix.simps [of _ _ "Suc j"]) (simp add: chainLHS_def)
  ultimately show ?thesis using f by (simp add: checkForOverlap_def)
qed

lemma Rule_apply_chain:
  "Rule_apply (mkRule (chainLHS j) (chainRHS j)) (chainLHS j @ [forName ''a''])
   = Inr (True, chainRHS (Suc j))"
proof -
  have "std_search (chainLHS j @ [forName ''a'']) (chainLHS j) = 0"
    by (simp add: chainLHS_def)
  then show ?thesis
    by (simp add: Rule_apply_def rewriteSubTerm_def findSubTerm_def mkRule_def)
       (simp add: chainRHS_def replicate_append_same)
qed

lemma Rule_apply_swap:
  "Rule_apply (mkRule [forName ''b'', forName ''a''] [forName ''a'', forName ''b''])
     (chainLHS j @ [forName ''a''])
   = Inr (True, chainLHS (Suc j))"
proof -
  have "std_search (chainLHS j @ [forName ''a'']) [forName ''b'', forName ''a''] = Suc j"
  proof (rule std_search_first)
    show "\<forall>p < Suc j. (chainLHS j @ [forName ''a'']) ! p \<noteq> hd [forName ''b'', forName ''a'']"
      by (simp add: nth_append chainLHS_nth)
    show "take (length [forName ''b'', forName ''a'']) (drop (Suc j) (chainLHS j @ [forName ''a'']))
          = [forName ''b'', forName ''a'']"
      by (simp add: chainLHS_def)
  qed simp_all
  then show ?thesis
    by (simp add: Rule_apply_def rewriteSubTerm_def findSubTerm_def mkRule_def)
       (simp add: chainLHS_def replicate_append_same)
qed

lemma retireRules_none:
  "\<forall>k \<in> set js. k \<noteq> i \<longrightarrow> \<not> canReduceLeftHandSide (rules ! k) (rules ! i) \<Longrightarrow>
   retireRules js i rules = rules"
  by (induction js) auto

lemma retireRules_chain:
  "retireRules [0..<length (chainVector (Suc j))] (Suc (Suc j)) (chainVector (Suc j)) = chainVector (Suc j)"
proof (rule retireRules_none, intro ballI impI)
  fix k assume "k \<in> set [0..<length (chainVector (Suc j))]" and ne: "k \<noteq> Suc (Suc j)"
  then have k: "k < Suc (Suc j)" by auto
  have new: "LHS (chainVector (Suc j) ! Suc (Suc j)) = chainLHS (Suc j)"
    by (simp add: chainVector_Suc mkRule_def)
  have "\<not> sublist (chainLHS (Suc j)) (LHS (chainVector (Suc j) ! k))"
  proof (cases k)
    case 0
    show ?thesis
    proof
      assume "sublist (chainLHS (Suc j)) (LHS (chainVector (Suc j) ! k))"
      from sublist_nth [OF this] 0 show False by (simp add: chainVector_0 mkRule_def)
    qed
  next
    case (Suc x)
    with k have "x \<le> j" by simp
    then have "LHS (chainVector (Suc j) ! k) = chainLHS x"
      by (simp add: Suc chainVector_Suc mkRule_def)
    with \<open>x \<le> j\<close> no_chainLHS_in_chainLHS [of "Suc j" x] show ?thesis by simp
  qed
  then show "\<not> canReduceLeftHandSide (chainVector (Suc j) ! k) (chainVector (Suc j) ! Suc (Suc j))"
    by (simp add: canReduceLeftHandSide_def new findSubTerm_none)
qed


lemma chainState_simps [simp]:
  "Rules (chainState j W) = chainVector j"
  "MergedAssociatedTypes (chainState j W) = []"
  "Worklist (chainState j W) = W"
  "(chainState j W)\<lparr>Worklist := W'\<rparr> = chainState j W'"
  by (simp_all add: chainState_def)

lemma chain_skip:
  assumes "fst pair < j + 2" "snd pair < j + 2" "fst pair \<noteq> snd pair" "snd pair \<noteq> 0"
  shows "completionIteration graph getDepth n d pair (chainState j W)
         = Some (Inr (Continue n (chainState j W)))"
proof (rule completionIteration_skip)
  from assms(2,4) obtain x where x: "snd pair = Suc x" "x \<le> j" by (cases "snd pair") auto
  then have other: "LHS (chainVector j ! snd pair) = chainLHS x"
    by (simp add: chainVector_Suc mkRule_def)
  have "checkForOverlap (LHS (chainVector j ! fst pair)) (chainLHS x) = None"
  proof (cases "fst pair")
    case 0
    then show ?thesis by (simp add: chainVector_0 mkRule_def chainLHS_no_overlap_swap)
  next
    case (Suc y)
    with assms(1,3) x have "y \<le> j" "x \<noteq> y" by auto
    with Suc show ?thesis by (simp add: chainVector_Suc mkRule_def chainLHS_no_overlap)
  qed
  with other
  show "checkForOverlap (LHS (Rules (chainState j W) ! fst pair))
          (LHS (Rules (chainState j W) ! snd pair)) = None"
    by simp
qed (insert assms, simp_all add: chainVector_live)

lemma chain_productive:
  "completionIteration graph getDepth n d (Suc j, 0) (chainState j W) =
     (if n = 0
      then Some (Inr (Return MaxIterations
             (chainState (Suc j) (W @ newWorklistPairs (Suc (Suc j)) (Suc (Suc (Suc j)))))))
      else if getDepth (mkRule (chainLHS (Suc j)) (chainRHS (Suc j))) > d
      then Some (Inr (Return MaxDepth
             (chainState (Suc j) (W @ newWorklistPairs (Suc (Suc j)) (Suc (Suc (Suc j)))))))
      else Some (Inr (Continue (n - 1)
             (chainState (Suc j) (W @ newWorklistPairs (Suc (Suc j)) (Suc (Suc (Suc j))))))))"
proof -
  define s1 where "s1 = chainState (Suc j) (W @ newWorklistPairs (Suc (Suc j)) (Suc (Suc (Suc j))))"
  have retire: "s1\<lparr>Rules := retireRules [0..<length (Rules s1)] (length (Rules (chainState j W))) (Rules s1)\<rparr> = s1"
    using retireRules_chain [of j] by (simp add: s1_def)
  have merged: "processMergedAssociatedTypes graph s1 = Some (Inr s1)"
    by (simp add: processMergedAssociatedTypes_def s1_def)
  have new: "Rules s1 ! length (Rules (chainState j W)) = mkRule (chainLHS (Suc j)) (chainRHS (Suc j))"
    by (simp add: s1_def chainVector_Suc)
  have "completionIteration graph getDepth n d (Suc j, 0) (chainState j W) =
         (if n = 0 then Some (Inr (Return MaxIterations s1))
          else if getDepth (Rules s1 ! length (Rules (chainState j W))) > d
               then Some (Inr (Return MaxDepth s1))
          else bindM (processMergedAssociatedTypes graph
                 (s1\<lparr>Rules := retireRules [0..<length (Rules s1)] (length (Rules (chainState j W))) (Rules s1)\<rparr>))
                 (\<lambda>s3. Some (Inr (Continue (n - 1) s3))))"
  proof (rule completionIteration_paired)
    show "checkForOverlap (LHS (Rules (chainState j W) ! fst (Suc j, 0)))
            (LHS (Rules (chainState j W) ! snd (Suc j, 0))) = Some (chainLHS j @ [forName ''a''])"
      by (simp add: chainVector_0 chainVector_Suc mkRule_def chainLHS_overlap_swap)
    show "Rule_apply (Rules (chainState j W) ! fst (Suc j, 0)) (chainLHS j @ [forName ''a''])
          = Inr (True, chainRHS (Suc j))"
      by (simp add: chainVector_Suc Rule_apply_chain)
    show "Rule_apply (Rules (chainState j W) ! snd (Suc j, 0)) (chainLHS j @ [forName ''a''])
          = Inr (True, chainLHS (Suc j))"
      by (simp add: chainVector_0 Rule_apply_swap)
    show "addRule graph (chainRHS (Suc j)) (chainLHS (Suc j)) (chainState j W) = Some (Inr (True, s1))"
      by (simp add: addRule_chain s1_def)
  qed (simp_all add: chainVector_live)
  then show ?thesis unfolding retire merged new by (simp add: bindM_def s1_def)
qed

lemma newWorklistPairs_chain:
  "filter (\<lambda>p. snd p = 0) (newWorklistPairs (Suc N) (Suc (Suc N))) = [(Suc N, 0)]"
  "list_all (\<lambda>p. fst p < Suc (Suc N) \<and> snd p < Suc (Suc N) \<and> fst p \<noteq> snd p)
     (newWorklistPairs (Suc N) (Suc (Suc N)))"
proof -
  have f: "filter (\<lambda>j. Suc N \<noteq> j) [0..<Suc (Suc N)] = [0..<Suc N]" by simp
  have u: "[0..<Suc N] = 0 # [1..<Suc N]" by (simp add: upt_conv_Cons)
  have "filter (\<lambda>p. snd p = 0) (concat (map (\<lambda>j. [(Suc N, j), (j, Suc N)]) [1..<Suc N])) = []"
    by (auto simp: filter_empty_conv)
  then show "filter (\<lambda>p. snd p = 0) (newWorklistPairs (Suc N) (Suc (Suc N))) = [(Suc N, 0)]"
    unfolding newWorklistPairs_def f u by simp
  show "list_all (\<lambda>p. fst p < Suc (Suc N) \<and> snd p < Suc (Suc N) \<and> fst p \<noteq> snd p)
     (newWorklistPairs (Suc N) (Suc (Suc N)))"
    unfolding newWorklistPairs_def f by (auto simp: list_all_iff)
qed

lemma chain_reach:
  assumes "\<forall>r. getDepth r \<le> d"
  shows "chainWorklist j W \<Longrightarrow>
         \<exists>k W'. chainWorklist (Suc j) W' \<and>
           (\<forall>k'. completion_steps (k + k') graph getDepth (Suc n) d (chainState j W)
                  = completion_steps k' graph getDepth n d (chainState (Suc j) W'))"
proof (induction W)
  case Nil
  then show ?case by (simp add: chainWorklist_def)
next
  case (Cons pair rest)
  from Cons.prems have bounds: "fst pair < j + 2" "snd pair < j + 2" "fst pair \<noteq> snd pair"
    and all: "list_all (\<lambda>p. fst p < j + 2 \<and> snd p < j + 2 \<and> fst p \<noteq> snd p) rest"
    by (simp_all add: chainWorklist_def)
  show ?case
  proof (cases "snd pair = 0")
    case True
    with Cons.prems have pair: "pair = (Suc j, 0)" and none: "filter (\<lambda>p. snd p = 0) rest = []"
      by (simp_all add: chainWorklist_def)
    define W' where "W' = rest @ newWorklistPairs (Suc (Suc j)) (Suc (Suc (Suc j)))"
    from assms have dp: "\<not> getDepth (mkRule (chainLHS (Suc j)) (chainRHS (Suc j))) > d"
      by (simp add: not_less)
    have "\<forall>k'. completion_steps (1 + k') graph getDepth (Suc n) d (chainState j (pair # rest))
                  = completion_steps k' graph getDepth n d (chainState (Suc j) W')"
      using dp by (simp add: pair chain_productive bindM_def W'_def)
    moreover from none all newWorklistPairs_chain [of "Suc j"] have "chainWorklist (Suc j) W'"
      by (auto simp: chainWorklist_def W'_def list_all_iff)
    ultimately show ?thesis by blast
  next
    case False
    with Cons.prems all have "chainWorklist j rest" by (simp add: chainWorklist_def)
    from Cons.IH [OF this] obtain k W' where
      w: "chainWorklist (Suc j) W'" and
      st: "\<forall>k'. completion_steps (k + k') graph getDepth (Suc n) d (chainState j rest)
                  = completion_steps k' graph getDepth n d (chainState (Suc j) W')"
      by blast
    from False bounds
    have "\<forall>k'. completion_steps (Suc k + k') graph getDepth (Suc n) d (chainState j (pair # rest))
                  = completion_steps (k + k') graph getDepth (Suc n) d (chainState j rest)"
      by (simp add: chain_skip bindM_def)
    with st w show ?thesis by metis
  qed
qed

lemma chain_keeps_producing:
  assumes "\<forall>r. getDepth r \<le> d"
  shows "chainWorklist j W \<Longrightarrow>
         \<exists>k s1. completion_steps k graph getDepth n d (chainState j W) = Some (Inr (Continue 0 s1))"
proof (induction n arbitrary: j W)
  case 0
  have "completion_steps 0 graph getDepth 0 d (chainState j W) = Some (Inr (Continue 0 (chainState j W)))"
    by simp
  then show ?case by blast
next
  case (Suc n)
  from chain_reach [OF assms Suc.prems] obtain k W' where
    w: "chainWorklist (Suc j) W'" and
    st: "\<forall>k'. completion_steps (k + k') graph getDepth (Suc n) d (chainState j W)
                  = completion_steps k' graph getDepth n d (chainState (Suc j) W')"
    by blast
  from Suc.IH [OF w] obtain k' s1 where
    "completion_steps k' graph getDepth n d (chainState (Suc j) W') = Some (Inr (Continue 0 s1))"
    by blast
  with st have "completion_steps (k + k') graph getDepth (Suc n) d (chainState j W)
                = Some (Inr (Continue 0 s1))"
    by simp
  then show ?case by blast
qed

lemma chainSystem_keeps_producing:
  assumes "\<forall>r. getDepth r \<le> d"
  shows "\<exists>k s1. completion_steps k graph getDepth n d chainSystem = Some (Inr (Continue 0 s1))"
  unfolding chainSystem_chainState
  by (rule chain_keeps_producing [OF assms]) (simp add: chainWorklist_def)

lemma chainSystem_MaxIterations:
  assumes "\<forall>r. getDepth r \<le> d"
  shows "\<exists>s'. computeConfluentCompletion graph getDepth n d chainSystem = Some (Inr (MaxIterations, s'))
           \<and> length (Rules s') = 2 + n + 1"
proof -
  from chainSystem_keeps_producing [OF assms, of graph "Suc n"] obtain k s1 where
    "completion_steps k graph getDepth (Suc n) d chainSystem = Some (Inr (Continue 0 s1))"
    by blast
  from completion_budget_exhausted [OF this, of n]
  obtain s' where "completion_loop graph getDepth n d chainSystem = Some (Inr (MaxIterations, s'))"
    "plainSystem chainSystem \<longrightarrow> length (Rules s') = length (Rules chainSystem) + n + 1"
    by auto
  moreover have "plainSystem chainSystem" "length (Rules chainSystem) = 2"
    by (simp_all add: plainSystem_def chainSystem_def plainTerm_def mkRule_def)
  ultimately show ?thesis by (simp add: computeConfluentCompletion_def)
qed

subsection \<open>The depth of a new rule\<close>





text \<open>
  Up to the finalisation, the completion keeps every rule and every deleted flag:
  \<open>addRule\<close> and the merge step append, and the retiring loop only sets flags.
\<close>

lemma keepsRules_refl [simp]: "keepsRules rules rules"
  by (simp add: keepsRules_def)

lemma keepsRules_trans: "keepsRules a b \<Longrightarrow> keepsRules b c \<Longrightarrow> keepsRules a c"
  by (auto simp: keepsRules_def)

lemma keepsRules_append [simp]: "keepsRules rules (rules @ extra)"
  by (simp add: keepsRules_def nth_append)

lemma addRule_keepsRules:
  assumes "addRule graph lhs rhs s = Some (Inr (b, s'))"
  shows "keepsRules (Rules s) (Rules s')"
  using addRule_result [OF assms] by auto

lemma retireRules_keepsRules: "keepsRules rules (retireRules js i rules)"
proof (induction js i rules rule: retireRules.induct)
  case (1 i rules)
  then show ?case by simp
next
  case (2 j js i rules)
  have "keepsRules rules (rules[j := markDeleted (rules ! j)])"
  proof (cases "j < length rules")
    case True
    then show ?thesis by (auto simp: keepsRules_def nth_list_update markDeleted_def)
  next
    case False
    then show ?thesis by (simp add: list_update_beyond)
  qed
  with 2 show ?case by (auto intro: keepsRules_trans)
qed

lemma liftConformanceRules_keepsRules:
  "liftConformanceRules graph rules lhs rhs mergedAtom s = Some (Inr s') \<Longrightarrow>
   keepsRules (Rules s) (Rules s')"
  by (drule liftConformanceRules_unchanged) simp

lemma processMerged_loop_keepsRules:
  assumes "processMerged_loop graph i s = Some y"
  shows "\<forall>s'. y = Inr s' \<longrightarrow> keepsRules (Rules s) (Rules s')"
  using assms
proof (induction graph i s y rule: processMerged_loop.raw_induct [rotated 1, consumes 1])
  case (1 loop graph i s y)
  show ?case
  proof (intro allI impI)
    fix s' assume y: "y = Inr s'"
    show "keepsRules (Rules s) (Rules s')"
    proof (cases "i < length (MergedAssociatedTypes s)")
      case False
      with 1(2) y show ?thesis by simp
    next
      case True
      define lhs where "lhs = fst (MergedAssociatedTypes s ! i)"
      define rhs where "rhs = snd (MergedAssociatedTypes s ! i)"
      from 1(2) True y obtain mergedAtom added1 s1 added2 s2 s3 where
        a1: "addRule graph lhs (lhs[length lhs - 1 := mergedAtom]) s = Some (Inr (added1, s1))" and
        a2: "addRule graph rhs (lhs[length lhs - 1 := mergedAtom]) s1 = Some (Inr (added2, s2))" and
        l: "liftConformanceRules graph (Rules s2) lhs rhs mergedAtom s2 = Some (Inr s3)" and
        r: "loop graph (Suc i) s3 = Some (Inr s')"
        unfolding Let_def lhs_def rhs_def
        by (auto simp: bindM_def split: if_splits option.splits sum.splits prod.splits)
      from 1(1) [OF r] have "keepsRules (Rules s3) (Rules s')" by simp
      with addRule_keepsRules [OF a1] addRule_keepsRules [OF a2] liftConformanceRules_keepsRules [OF l]
      show ?thesis by (blast intro: keepsRules_trans)
    qed
  qed
qed

lemma processMergedAssociatedTypes_keepsRules:
  assumes "processMergedAssociatedTypes graph s = Some (Inr s')"
  shows "keepsRules (Rules s) (Rules s')"
proof (cases "MergedAssociatedTypes s = []")
  case True
  with assms show ?thesis by (simp add: processMergedAssociatedTypes_def)
next
  case False
  with assms obtain s1 where "processMerged_loop graph 0 s = Some (Inr s1)"
    "s' = s1\<lparr>MergedAssociatedTypes := []\<rparr>"
    by (auto simp: processMergedAssociatedTypes_def bindM_def split: option.splits sum.splits)
  with processMerged_loop_keepsRules show ?thesis by fastforce
qed

lemma completionIteration_keepsRules:
  assumes it: "completionIteration graph getDepth n d pair s = Some (Inr it)"
  shows "case it of Continue n' s' \<Rightarrow> keepsRules (Rules s) (Rules s')
                  | Return r s' \<Rightarrow> keepsRules (Rules s) (Rules s')"
  using it
proof (cases rule: completionIteration_result)
  case skipped
  then show ?thesis by simp
next
  case (paired i j overlap a1 first a2 second b s1)
  from addRule_keepsRules [OF paired(7)] have k1: "keepsRules (Rules s) (Rules s1)" .
  show ?thesis
  proof (cases "b \<and> n \<noteq> 0 \<and> \<not> getDepth (Rules s1 ! length (Rules s)) > d")
    case False
    with paired(8) k1 show ?thesis by (auto split: if_splits)
  next
    case True
    with paired(8) obtain s3 where
      pm: "processMergedAssociatedTypes graph
             (s1\<lparr>Rules := retireRules [0..<length (Rules s1)] (length (Rules s)) (Rules s1)\<rparr>)
           = Some (Inr s3)" and it3: "it = Continue (n - 1) s3"
      by auto
    from processMergedAssociatedTypes_keepsRules [OF pm]
    have "keepsRules (retireRules [0..<length (Rules s1)] (length (Rules s)) (Rules s1)) (Rules s3)"
      by simp
    with k1 retireRules_keepsRules [of "Rules s1" "[0..<length (Rules s1)]" "length (Rules s)"]
    have "keepsRules (Rules s) (Rules s3)" by (blast intro: keepsRules_trans)
    with it3 show ?thesis by simp
  qed
qed

lemma completion_steps_keepsRules:
  "completion_steps k graph getDepth n d s = Some (Inr it) \<Longrightarrow>
   (case it of Continue n' s' \<Rightarrow> keepsRules (Rules s) (Rules s')
             | Return r s' \<Rightarrow> keepsRules (Rules s) (Rules s'))"
proof (induction k arbitrary: n s)
  case 0
  then show ?case by auto
next
  case (Suc k)
  show ?case
  proof (cases "Worklist s")
    case Nil
    with Suc.prems show ?thesis by auto
  next
    case (Cons pair rest)
    with Suc.prems obtain it1 where
      i1: "completionIteration graph getDepth n d pair (s\<lparr>Worklist := rest\<rparr>) = Some (Inr it1)" and
      k: "(case it1 of Continue n' s' \<Rightarrow> completion_steps k graph getDepth n' d s'
             | Return result s' \<Rightarrow> Some (Inr (Return result s'))) = Some (Inr it)"
      by (auto simp: bindM_def split: option.splits sum.splits)
    from completionIteration_keepsRules [OF i1]
    have k1: "case it1 of Continue n' s' \<Rightarrow> keepsRules (Rules s) (Rules s')
                  | Return r s' \<Rightarrow> keepsRules (Rules s) (Rules s')"
      by (cases it1) simp_all
    show ?thesis
    proof (cases it1)
      case (Continue n1 s1)
      with k have "completion_steps k graph getDepth n1 d s1 = Some (Inr it)" by simp
      from Suc.IH [OF this] k1 Continue
      show ?thesis by (cases it) (auto intro: keepsRules_trans)
    next
      case (Return r s1)
      with k k1 show ?thesis by auto
    qed
  qed
qed

text \<open>
  The finalisation does not: whatever the flags were, no rule of the system it returns is
  deleted.
\<close>

lemma simplifyRightHandSides_live:
  "simplifyRightHandSides ks s = Some (Inr s') \<Longrightarrow>
   length (Rules s') = length (Rules s) \<and>
   (\<forall>k < length (Rules s). k \<in> set ks \<or> \<not> deleted (Rules s ! k) \<longrightarrow> \<not> deleted (Rules s' ! k))"
proof (induction ks arbitrary: s)
  case Nil
  then show ?case by simp
next
  case (Cons k ks)
  from Cons.prems obtain rhs' where
    rest: "simplifyRightHandSides ks (s\<lparr>Rules := (Rules s)[k := mkRule (LHS (Rules s ! k)) rhs']\<rparr>)
             = Some (Inr s')"
    by (auto simp: Let_def bindM_def split: option.splits sum.splits prod.splits)
  define s1 where "s1 = s\<lparr>Rules := (Rules s)[k := mkRule (LHS (Rules s ! k)) rhs']\<rparr>"
  from Cons.IH [OF rest [folded s1_def]]
  have len: "length (Rules s') = length (Rules s1)" and
    ih: "\<forall>j < length (Rules s1). j \<in> set ks \<or> \<not> deleted (Rules s1 ! j) \<longrightarrow> \<not> deleted (Rules s' ! j)"
    by simp_all
  have l1: "length (Rules s1) = length (Rules s)" by (simp add: s1_def)
  have "\<not> deleted (Rules s' ! j)"
    if j: "j < length (Rules s)" and c: "j \<in> set (k # ks) \<or> \<not> deleted (Rules s ! j)" for j
  proof (cases "j = k")
    case True
    with j have "\<not> deleted (Rules s1 ! j)" by (simp add: s1_def mkRule_def)
    with ih j l1 show ?thesis by simp
  next
    case False
    with j have "Rules s1 ! j = Rules s ! j" by (simp add: s1_def)
    with ih j l1 c False show ?thesis by auto
  qed
  with len l1 show ?case by simp
qed

lemma insertRule_set:
  "insertRule graph r xs = Inr ys \<Longrightarrow> set ys = insert r (set xs)"
proof (induction xs arbitrary: ys)
  case Nil
  then show ?case by auto
next
  case (Cons x xs)
  from Cons.prems obtain c where c: "Term_compare graph (LHS x) (LHS r) = Inr c"
    by (cases "Term_compare graph (LHS x) (LHS r)") simp_all
  show ?case
  proof (cases "c < 0")
    case True
    with Cons.prems c obtain zs where "insertRule graph r xs = Inr zs" "ys = x # zs"
      by (cases "insertRule graph r xs") simp_all
    with Cons.IH show ?thesis by auto
  next
    case False
    with Cons.prems c show ?thesis by auto
  qed
qed

lemma sortRules_set:
  "sortRules graph rs = Inr ys \<Longrightarrow> set ys = set rs"
proof (induction rs arbitrary: ys)
  case Nil
  then show ?case by simp
next
  case (Cons r rs)
  from Cons.prems obtain zs where "sortRules graph rs = Inr zs" "insertRule graph r zs = Inr ys"
    by (cases "sortRules graph rs") simp_all
  with Cons.IH insertRule_set show ?case by fastforce
qed

lemma finalise_all_live:
  assumes "finalise graph s = Some (Inr (r, s'))"
  shows "\<forall>rule \<in> set (Rules s'). \<not> deleted rule"
proof -
  from assms obtain s1 sorted where
    a: "simplifyRightHandSides [0..<length (Rules s)] s = Some (Inr s1)" and
    b: "sortRules graph (Rules s1) = Inr sorted" and c: "Rules s' = sorted"
    by (auto simp: finalise_def bindM_def split: option.splits sum.splits)
  from simplifyRightHandSides_live [OF a] have "\<forall>k < length (Rules s1). \<not> deleted (Rules s1 ! k)"
    by simp
  then have "\<forall>rule \<in> set (Rules s1). \<not> deleted rule" by (auto simp: in_set_conv_nth)
  with sortRules_set [OF b] c show ?thesis by simp
qed

text \<open>
  Claim C1 fails on the code. From the three rules of \<open>tombstoneRules\<close>, the second run
  of the loop body appends \<open>e.c.b \<rightarrow> d.g\<close> and marks \<open>h.e.c.b \<rightarrow> a\<close> deleted. The procedure
  ends with \<open>Success\<close>, and in the system it leaves that rule is not deleted: the first
  finalisation loop replaces every rule, deleted or not, by a new \<^verbatim>\<open>Rule(lhs, rhs)\<close>.
\<close>

theorem finalisation_revives_deleted_rule:
  "initialize tombstoneRules exampleGraph emptySystem = Some (Inr tombstoneSystem)
   \<and> completion_steps 2 exampleGraph (\<lambda>r. 0) 100 100 tombstoneSystem
       = Some (Inr (Continue 99
           \<lparr>Rules = [mkRule [forName ''e'', forName ''f''] [forName ''d''],
                     mkRule [forName ''f'', forName ''g''] [forName ''c'', forName ''b''],
                     \<lparr>LHS = [forName ''h'', forName ''e'', forName ''c'', forName ''b''],
                      RHS = [forName ''a''], deleted = True\<rparr>,
                     mkRule [forName ''e'', forName ''c'', forName ''b''] [forName ''d'', forName ''g'']],
            MergedAssociatedTypes = [],
            Worklist = [(2, 0), (0, 2), (2, 1), (1, 2), (3, 0), (0, 3), (3, 1), (1, 3), (3, 2), (2, 3)]\<rparr>))
   \<and> computeConfluentCompletion exampleGraph (\<lambda>r. 0) 100 100 tombstoneSystem
       = Some (Inr (Success,
           \<lparr>Rules = [mkRule [forName ''e'', forName ''f''] [forName ''d''],
                     mkRule [forName ''f'', forName ''g''] [forName ''c'', forName ''b''],
                     mkRule [forName ''e'', forName ''c'', forName ''b''] [forName ''d'', forName ''g''],
                     \<lparr>LHS = [forName ''h'', forName ''e'', forName ''c'', forName ''b''],
                      RHS = [forName ''a''], deleted = False\<rparr>],
            MergedAssociatedTypes = [], Worklist = []\<rparr>))"
  by code_simp

text \<open>
  With its assertions, \<open>mergeAssociatedTypes\<close> returns its second argument whenever it
  returns: the filter drops every protocol of the first atom, and the last assertion
  then leaves no room to drop one of the second.
\<close>

lemma filter_std_merge:
  "\<forall>x \<in> set xs. \<not> Q x \<Longrightarrow> filter Q (std_merge precedes xs ys) = filter Q ys"
  by (induction precedes xs ys rule: std_merge.induct) auto

lemma find_self:
  "x \<in> set protos \<Longrightarrow> find (\<lambda>thisProto. thisProto = x \<or> inh thisProto x) protos \<noteq> None"
  by (auto simp: find_None_iff)

lemma filter_full_length:
  "length xs \<le> length (filter Q xs) \<Longrightarrow> filter Q xs = xs"
  by (metis filter_True length_filter_le length_filter_less linorder_not_less order_antisym)

lemma mergeAssociatedTypes_returns_rhs:
  assumes "mergeAssociatedTypes graph lhs rhs = Inr m"
  shows "m = rhs"
proof -
  from assms obtain protos name otherProtos otherName where
    l: "lhs = forAssociatedType protos name" and r: "rhs = forAssociatedType otherProtos otherName"
    by (cases lhs; cases rhs) (auto simp: mergeAssociatedTypes_def)
  define Q where "Q = (\<lambda>newProto. find (\<lambda>thisProto. thisProto = newProto \<or>
                                          inheritsFrom graph thisProto newProto) protos = None)"
  from assms l r have n: "name = otherName"
    and len: "length otherProtos \<le> length (filter Q
          (std_merge (\<lambda>l r. compareProtocols graph l r < 0) protos otherProtos))"
    and m: "m = forAssociatedType (filter Q
          (std_merge (\<lambda>l r. compareProtocols graph l r < 0) protos otherProtos)) name"
    by (auto simp: mergeAssociatedTypes_def Let_def Q_def split: if_splits)
  have "\<forall>x \<in> set protos. \<not> Q x" using find_self by (auto simp: Q_def)
  then have f: "filter Q (std_merge (\<lambda>l r. compareProtocols graph l r < 0) protos otherProtos)
      = filter Q otherProtos" by (rule filter_std_merge)
  with len have "filter Q otherProtos = otherProtos" by (simp add: filter_full_length)
  with f m n r show ?thesis by simp
qed

text \<open>
  Claim C4 fails on the code. \<open>[3:T]\<close> is greater than \<open>[1&2:T]\<close>, protocol 1 inherits
  from protocol 2, and the merged atom is \<open>[1&2:T]\<close>: its protocol list holds both 1
  and 2. The filter looks for an inheriting protocol among the protocols of the first
  atom only.
\<close>

theorem mergeAssociatedTypes_not_minimal:
  "Atom_compare exampleGraph (forAssociatedType [3] ''T'') (forAssociatedType [1, 2] ''T'') > 0
   \<and> mergeAssociatedTypes exampleGraph (forAssociatedType [3] ''T'') (forAssociatedType [1, 2] ''T'')
       = Inr (forAssociatedType [1, 2] ''T'')
   \<and> inheritsFrom exampleGraph 1 2 \<and> (1::nat) \<noteq> 2"
  by code_simp

text \<open>
  Claim C9 fails on the code. \<^verbatim>\<open>initialize\<close> builds \<open>liftingSystem\<close> from the four rules
  of \<open>liftingRules\<close>. The completion appends the critical pair of \<open>x.y \<rightarrow> z\<close> and
  \<open>y.w \<rightarrow> v\<close> and then handles the merge candidate \<open>([2:T], [1:T])\<close>. The rule
  \<open>[1:T].[5] \<rightarrow> a\<close> has a left-hand side of length 2 that starts with \<open>[1:T]\<close> and ends
  with a protocol, and its right-hand side is not \<open>[1:T]\<close>: the assertion of line 410
  fails.
\<close>

theorem conformance_lifting_assertion_fails:
  "initialize liftingRules exampleGraph emptySystem = Some (Inr liftingSystem)
   \<and> computeConfluentCompletion exampleGraph (\<lambda>r. 0) 100 100 liftingSystem
       = Some (Inl AssertionFailure)
   \<and> mergeAssociatedTypes exampleGraph (forAssociatedType [2] ''T'') (forAssociatedType [1] ''T'')
       = Inr (forAssociatedType [1] ''T'')
   \<and> Rules liftingSystem ! 3
       = mkRule [forAssociatedType [1] ''T'', forProtocol 5] [forName ''a'']
   \<and> liftConformanceRule (Rules liftingSystem ! 3)
         [forAssociatedType [2] ''T''] [forAssociatedType [1] ''T''] (forAssociatedType [1] ''T'')
       = Inl AssertionFailure"
  by code_simp

end
